theory Spec2Isabelle
  imports Main "HOL-Library.Multiset"
begin

section \<open>Values of the script\<close>

text \<open>
  The script \<^verbatim>\<open>nova_lite_processor.py\<close> sends each image of a list to a hosted model,
  saves the answers, and repeats the whole list until a deadline has passed. Text is a
  list of characters with code points below 256. An exception is a value: the class of
  the exception with its message, and \<open>str_exn\<close> is Python's \<^verbatim>\<open>str(e)\<close>.
\<close>

datatype py_exn =
    OSError string
  | ClientError string
  | JSONDecodeError string
  | KeyError string
  | IndexError string
  | TypeError string
  | ValueError string

definition LF :: char where
  "LF = CHR 0x0A"

definition CR :: char where
  "CR = CHR 0x0D"

definition QUOTE :: char where
  "QUOTE = CHR 0x27"

fun str_exn :: "py_exn \<Rightarrow> string" where
  "str_exn (OSError m) = m"
| "str_exn (ClientError m) = m"
| "str_exn (JSONDecodeError m) = m"
| "str_exn (KeyError k) = QUOTE # k @ [QUOTE]"
| "str_exn (IndexError m) = m"
| "str_exn (TypeError m) = m"
| "str_exn (ValueError m) = m"

text \<open>
  What \<^verbatim>\<open>json.loads\<close> returns and \<^verbatim>\<open>json.dumps\<close> takes. An object is the list of
  the items of the dict; a float is kept as its literal.
\<close>

datatype json =
    JNull
  | JBool bool
  | JInt int
  | JFloat string
  | JStr string
  | JArr "json list"
  | JObj "(string \<times> json) list"

text \<open>\<^verbatim>\<open>v[k]\<close> for a string key \<open>k\<close>, and \<^verbatim>\<open>v[0]\<close>, with the exceptions Python raises.\<close>

fun getitem_key :: "json \<Rightarrow> string \<Rightarrow> py_exn + json" where
  "getitem_key (JObj kvs) k = (case map_of kvs k of None \<Rightarrow> Inl (KeyError k) | Some v \<Rightarrow> Inr v)"
| "getitem_key (JArr xs) k = Inl (TypeError ''list indices must be integers or slices, not str'')"
| "getitem_key (JStr s) k = Inl (TypeError ''string indices must be integers, not str'')"
| "getitem_key JNull k = Inl (TypeError ''NoneType object is not subscriptable'')"
| "getitem_key (JBool b) k = Inl (TypeError ''bool object is not subscriptable'')"
| "getitem_key (JInt i) k = Inl (TypeError ''int object is not subscriptable'')"
| "getitem_key (JFloat f) k = Inl (TypeError ''float object is not subscriptable'')"

fun getitem_0 :: "json \<Rightarrow> py_exn + json" where
  "getitem_0 (JArr []) = Inl (IndexError ''list index out of range'')"
| "getitem_0 (JArr (x # xs)) = Inr x"
| "getitem_0 (JStr []) = Inl (IndexError ''string index out of range'')"
| "getitem_0 (JStr (c # cs)) = Inr (JStr [c])"
| "getitem_0 (JObj kvs) = Inl (KeyError ''0'')"
| "getitem_0 JNull = Inl (TypeError ''NoneType object is not subscriptable'')"
| "getitem_0 (JBool b) = Inl (TypeError ''bool object is not subscriptable'')"
| "getitem_0 (JInt i) = Inl (TypeError ''int object is not subscriptable'')"
| "getitem_0 (JFloat f) = Inl (TypeError ''float object is not subscriptable'')"

definition and_then :: "py_exn + 'a \<Rightarrow> ('a \<Rightarrow> py_exn + 'b) \<Rightarrow> py_exn + 'b" where
  "and_then r f = (case r of Inl x \<Rightarrow> Inl x | Inr v \<Rightarrow> f v)"

text \<open>Line 155: \<^verbatim>\<open>model_response["output"]["message"]["content"][0]["text"]\<close>.\<close>

definition content_text :: "json \<Rightarrow> py_exn + json" where
  "content_text model_response =
     and_then (getitem_key model_response ''output'') (\<lambda>output.
     and_then (getitem_key output ''message'') (\<lambda>message.
     and_then (getitem_key message ''content'') (\<lambda>content.
     and_then (getitem_0 content) (\<lambda>first.
     getitem_key first ''text''))))"

subsection \<open>Text helpers\<close>

text \<open>\<^verbatim>\<open>needle in haystack\<close> on strings.\<close>

fun contains :: "string \<Rightarrow> string \<Rightarrow> bool" where
  "contains needle [] = (needle = [])"
| "contains needle (c # cs) = (take (length needle) (c # cs) = needle \<or> contains needle cs)"

text \<open>\<^verbatim>\<open>str(n)\<close> for a natural number.\<close>

definition digit_char :: "nat \<Rightarrow> char" where
  "digit_char d = char_of (48 + d)"

fun str_nat :: "nat \<Rightarrow> string" where
  "str_nat n = (if n < 10 then [digit_char n] else str_nat (n div 10) @ [digit_char (n mod 10)])"

declare str_nat.simps [simp del]

text \<open>\<^verbatim>\<open>os.path.basename\<close> and \<^verbatim>\<open>os.path.join\<close> of two parts (posixpath).\<close>

definition basename :: "string \<Rightarrow> string" where
  "basename p = rev (takeWhile (\<lambda>c. c \<noteq> CHR ''/'') (rev p))"

definition path_join :: "string \<Rightarrow> string \<Rightarrow> string" where
  "path_join a b =
     (if take 1 b = ''/'' then b
      else if a = [] \<or> last a = CHR ''/'' then a @ b
      else a @ ''/'' @ b)"

text \<open>
  \<^verbatim>\<open>str.strip()\<close>: the characters below 256 for which \<^verbatim>\<open>str.isspace\<close> holds are
  9 to 13, 28 to 32, 133 and 160.
\<close>

definition is_space :: "char \<Rightarrow> bool" where
  "is_space c = (let n = (of_char c :: nat) in
     (9 \<le> n \<and> n \<le> 13) \<or> (28 \<le> n \<and> n \<le> 32) \<or> n = 133 \<or> n = 160)"

definition strip :: "string \<Rightarrow> string" where
  "strip s = rev (dropWhile is_space (rev (dropWhile is_space s)))"

text \<open>
  Iterating over a file opened in text mode: \<^verbatim>\<open>\r\n\<close> and \<^verbatim>\<open>\r\<close> are read as
  \<^verbatim>\<open>\n\<close>, and every line keeps its terminator.
\<close>

fun universal_newlines :: "string \<Rightarrow> string" where
  "universal_newlines [] = []"
| "universal_newlines [c] = [if c = CR then LF else c]"
| "universal_newlines (c # d # cs) =
     (if c = CR then (if d = LF then LF # universal_newlines cs else LF # universal_newlines (d # cs))
      else c # universal_newlines (d # cs))"

fun split_lines :: "string \<Rightarrow> string list" where
  "split_lines [] = []"
| "split_lines (c # cs) =
     (if c = LF then [c] # split_lines cs
      else (case split_lines cs of [] \<Rightarrow> [[c]] | l # ls \<Rightarrow> (c # l) # ls))"

definition file_lines :: "string \<Rightarrow> string list" where
  "file_lines content = split_lines (universal_newlines content)"

section \<open>The world and the collaborators\<close>

text \<open>
  The world is what the script changes or reads: the files by path, the paths
  \<^verbatim>\<open>open\<close> refuses, the clock in ticks (microseconds), the lines printed
  on the two output streams, and the calls the model endpoint has received (model id and
  request).
\<close>

record world =
  files :: "string \<rightharpoonup> string"
  denied :: "string \<Rightarrow> bool"
  clock :: nat
  stdout :: "string list"
  stderr :: "string list"
  invocations :: "(string \<times> json) list"

definition ticks_per_second :: nat where
  "ticks_per_second = 1000000"

text \<open>
  The libraries and the endpoint are parameters: \<^verbatim>\<open>mimetypes.guess_type(p)[0]\<close>,
  \<^verbatim>\<open>base64.b64encode\<close>, \<^verbatim>\<open>time.ctime\<close> at a clock reading, \<^verbatim>\<open>json.dumps\<close>,
  \<^verbatim>\<open>json.dump(..., indent=2)\<close>, \<^verbatim>\<open>json.loads\<close>, the presence of an environment
  variable, the creation of the client for a region, and \<^verbatim>\<open>client.invoke_model\<close>
  followed by reading the body: the answer to the n-th call with a model id and a body
  is an exception or the bytes of the body.
\<close>

record env =
  guess_type :: "string \<Rightarrow> string option"
  b64encode :: "string \<Rightarrow> string"
  ctime :: "nat \<Rightarrow> string"
  json_dumps :: "json \<Rightarrow> string"
  json_dump_indent :: "json \<Rightarrow> string"
  json_loads :: "string \<Rightarrow> py_exn + json"
  environ :: "string \<Rightarrow> bool"
  make_client :: "string \<Rightarrow> py_exn option"
  invoke_model :: "nat \<Rightarrow> string \<Rightarrow> string \<Rightarrow> py_exn + string"

text \<open>Lines 16 to 24: the parsed options.\<close>

record args =
  image_list :: string
  output_dir :: string
  region :: string
  duration :: int
  threads :: int
  log_file :: string
  profile_arn :: string

definition open_read :: "world \<Rightarrow> string \<Rightarrow> py_exn + string" where
  "open_read w p =
     (if denied w p then Inl (OSError (''[Errno 13] Permission denied: '' @ p))
      else case files w p of
             None \<Rightarrow> Inl (OSError (''[Errno 2] No such file or directory: '' @ p))
           | Some c \<Rightarrow> Inr c)"

text \<open>\<^verbatim>\<open>open(p, 'w')\<close> and \<^verbatim>\<open>open(p, 'a')\<close> followed by one write.\<close>

definition open_write :: "world \<Rightarrow> string \<Rightarrow> string \<Rightarrow> py_exn + world" where
  "open_write w p c =
     (if denied w p then Inl (OSError (''[Errno 13] Permission denied: '' @ p))
      else Inr (w\<lparr>files := (files w)(p \<mapsto> c)\<rparr>))"

definition open_append :: "world \<Rightarrow> string \<Rightarrow> string \<Rightarrow> py_exn + world" where
  "open_append w p c =
     (if denied w p then Inl (OSError (''[Errno 13] Permission denied: '' @ p))
      else Inr (w\<lparr>files := (files w)(p \<mapsto> (case files w p of None \<Rightarrow> c | Some old \<Rightarrow> old @ c))\<rparr>))"

definition print :: "string \<Rightarrow> world \<Rightarrow> world" where
  "print s w = w\<lparr>stdout := stdout w @ [s]\<rparr>"


section \<open>Processing one image\<close>

text \<open>Lines 45 to 89.\<close>

definition PROMPT :: string where
  "PROMPT =
     ''You are an AI assistant specialized in analyzing screenshots from Zoom meeting calls. Your task is to extract OCR text, generate captions, and provide this information in a structured XML format.'' @ [LF] @
     ''Please follow these steps to analyze the screenshot and generate your response:'' @ [LF] @
     [LF] @
     ''1. Extract OCR Text:'' @ [LF] @
     ''- Carefully examine the screenshot and identify all visible text.'' @ [LF] @
     ''- Include text from tables, charts, images, and any other elements present.'' @ [LF] @
     ''- This text will be used to extract keywords and provide context for your analysis.'' @ [LF] @
     [LF] @
     ''2. Determine Screenshot Type:'' @ [LF] @
     ''- Identify whether the screenshot is of an interactive session (e.g., coding environment, terminal) or a document/slide.'' @ [LF] @
     [LF] @
     ''3. Generate Captions:'' @ [LF] @
     ''- Create two captions: a detailed long caption and a concise short caption.'' @ [LF] @
     ''- Adjust the level of detail based on the complexity of the screenshot.'' @ [LF] @
     [LF] @
     ''For interactive sessions:'' @ [LF] @
     ''- Provide a brief, high-level description (1-3 sentences).'' @ [LF] @
     ''- Focus on the environment or tools being used (e.g., IDE, terminal).'' @ [LF] @
     ''- Avoid describing specific content or sensitive information.'' @ [LF] @
     [LF] @
     ''For documents or slides:'' @ [LF] @
     ''- For text-heavy slides:'' @ [LF] @
     ''    * Describe key elements such as titles, dates, names, and terms visible in the slide.'' @ [LF] @
     ''    * Include section headers, bullet points, agenda items, project names, timelines, deliverables, performance metrics, recommendations, meeting objectives, key terms, calls to action, presenter or team information, citations, and status updates.'' @ [LF] @
     ''- For slides with visual elements (graphs, charts, tables):'' @ [LF] @
     ''    * Describe all visible elements in detail, including chart titles, axis labels, legends, data points, and visual highlights.'' @ [LF] @
     ''    * Include exact numbers when relevant.'' @ [LF] @
     ''    * If there are multiple figures or graphs, describe each one in detail.'' @ [LF] @
     [LF] @
     ''4. Format Your Response:'' @ [LF] @
     ''Present your analysis and output in the following XML structure:'' @ [LF] @
     [LF] @
     ''<ocr>'' @ [LF] @
     ''[All extracted OCR text]'' @ [LF] @
     ''</ocr>'' @ [LF] @
     [LF] @
     ''<caption>'' @ [LF] @
     ''[Detailed caption describing the screenshot content]'' @ [LF] @
     ''</caption>'' @ [LF] @
     [LF] @
     ''<short_caption>'' @ [LF] @
     ''[Concise summary of the screenshot (1-2 sentences)]'' @ [LF] @
     ''</short_caption>'' @ [LF] @
     [LF] @
     ''Study the following examples carefully. They illustrate the expected level of detail and format for different types of screenshots. Use these examples as a guide for your own analysis and output generation.''"

text \<open>Lines 110 to 135: the request for an image format and the encoded bytes.\<close>

definition request_json :: "string \<Rightarrow> string \<Rightarrow> json" where
  "request_json image_format base64_string =
     JObj [
       (''schemaVersion'', JStr ''messages-v1''),
       (''messages'', JArr [
          JObj [
            (''role'', JStr ''user''),
            (''content'', JArr [
               JObj [(''image'', JObj [
                  (''format'', JStr image_format),
                  (''source'', JObj [(''bytes'', JStr base64_string)])])],
               JObj [(''text'', JStr PROMPT)]])]]),
       (''inferenceConfig'', JObj [
          (''maxTokens'', JInt 3000),
          (''topP'', JFloat ''0.1''),
          (''topK'', JInt 20),
          (''temperature'', JFloat ''0.3'')])]"

text \<open>The format a request declares: \<^verbatim>\<open>request["messages"][0]["content"][0]["image"]["format"]\<close>.\<close>

definition declared_format :: "json \<Rightarrow> py_exn + json" where
  "declared_format request =
     and_then (getitem_key request ''messages'') (\<lambda>messages.
     and_then (getitem_0 messages) (\<lambda>message.
     and_then (getitem_key message ''content'') (\<lambda>content.
     and_then (getitem_0 content) (\<lambda>first.
     and_then (getitem_key first ''image'') (\<lambda>image.
     getitem_key image ''format'')))))"

text \<open>
  \<^verbatim>\<open>process_image\<close> in steps, one access to the shared world each, so that the steps of
  two workers can interleave. A stage holds the local variables that are still needed;
  the result is what the call returns or the exception that leaves it.
\<close>

datatype result = Returned bool | Raised py_exn

datatype stage =
    LogStart
  | ReadImage string
  | Stamp string string
  | Invoke json string string
  | SaveResponse json string string
  | SaveText json string
  | Report string
  | Handler py_exn
  | HandlerPrint py_exn
  | Done result

text \<open>Line 96: \<^verbatim>\<open>mimetypes.guess_type(image_path)[0] or 'application/octet-stream'\<close>.\<close>

definition mime_type_of :: "env \<Rightarrow> string \<Rightarrow> string" where
  "mime_type_of e image_path =
     (case guess_type e image_path of
        None \<Rightarrow> ''application/octet-stream''
      | Some m \<Rightarrow> if m = [] then ''application/octet-stream'' else m)"

text \<open>Lines 105 to 107.\<close>

definition image_format_of :: "string \<Rightarrow> string" where
  "image_format_of mime_type =
     (if mime_type \<noteq> [] \<and> contains ''png'' mime_type then ''png'' else ''jpeg'')"

text \<open>Lines 138 to 140.\<close>

definition output_file_of :: "args \<Rightarrow> string \<Rightarrow> nat \<Rightarrow> string" where
  "output_file_of a image_path timestamp =
     path_join (output_dir a) (basename image_path @ ''_'' @ str_nat timestamp @ ''.txt'')"

definition response_file_of :: "string \<Rightarrow> string" where
  "response_file_of output_file = output_file @ ''_response.json''"

fun step_image :: "args \<Rightarrow> env \<Rightarrow> string \<Rightarrow> stage \<Rightarrow> world \<Rightarrow> stage \<times> world" where
  "step_image a e image_path LogStart w =
     (let mime_type = mime_type_of e image_path in
      case open_append w (log_file a)
             (ctime e (clock w) @ '': Processing image: '' @ image_path @
              '' (MIME type: '' @ mime_type @ '')'' @ [LF]) of
        Inl x \<Rightarrow> (Handler x, w)
      | Inr w' \<Rightarrow> (ReadImage mime_type, w'))"
| "step_image a e image_path (ReadImage mime_type) w =
     (case open_read w image_path of
        Inl x \<Rightarrow> (Handler x, w)
      | Inr binary_data \<Rightarrow> (Stamp mime_type (b64encode e binary_data), w))"
| "step_image a e image_path (Stamp mime_type base64_string) w =
     (let request = request_json (image_format_of mime_type) base64_string;
          timestamp = clock w div ticks_per_second;
          output_file = output_file_of a image_path timestamp
      in (Invoke request output_file (response_file_of output_file), w))"
| "step_image a e image_path (Invoke request output_file response_file) w =
     (let w' = w\<lparr>invocations := invocations w @ [(profile_arn a, request)]\<rparr> in
      case invoke_model e (length (invocations w)) (profile_arn a) (json_dumps e request) of
        Inl x \<Rightarrow> (Handler x, w')
      | Inr body \<Rightarrow>
          (case json_loads e body of
             Inl x \<Rightarrow> (Handler x, w')
           | Inr model_response \<Rightarrow> (SaveResponse model_response output_file response_file, w')))"
| "step_image a e image_path (SaveResponse model_response output_file response_file) w =
     (case open_write w response_file (json_dump_indent e model_response) of
        Inl x \<Rightarrow> (Handler x, w)
      | Inr w' \<Rightarrow> (SaveText model_response output_file, w'))"
| "step_image a e image_path (SaveText model_response output_file) w =
     (case content_text model_response of
        Inl x \<Rightarrow> (Handler x, w)
      | Inr v \<Rightarrow>
          (case open_write w output_file [] of
             Inl x \<Rightarrow> (Handler x, w)
           | Inr w' \<Rightarrow>
               (case v of
                  JStr s \<Rightarrow> (Report output_file, w'\<lparr>files := (files w')(output_file \<mapsto> s)\<rparr>)
                | _ \<Rightarrow> (Handler (TypeError ''write() argument must be str''), w'))))"
| "step_image a e image_path (Report output_file) w =
     (Done (Returned True), print (''Response saved to: '' @ output_file) w)"
| "step_image a e image_path (Handler x) w =
     (case open_append w (log_file a)
             (ctime e (clock w) @ '': Error processing '' @ image_path @ '': '' @ str_exn x @ [LF]) of
        Inl y \<Rightarrow> (Done (Raised y), w)
      | Inr w' \<Rightarrow> (HandlerPrint x, w'))"
| "step_image a e image_path (HandlerPrint x) w =
     (Done (Returned False), print (''Error processing '' @ image_path @ '': '' @ str_exn x) w)"
| "step_image a e image_path (Done r) w = (Done r, w)"

text \<open>
  A bound on the steps a stage still takes, and \<^verbatim>\<open>process_image\<close> run by one thread
  alone: its steps in a row, from the first stage.
\<close>

fun steps_left :: "stage \<Rightarrow> nat" where
  "steps_left LogStart = 8"
| "steps_left (ReadImage m) = 7"
| "steps_left (Stamp m b) = 6"
| "steps_left (Invoke r out resp) = 5"
| "steps_left (SaveResponse r out resp) = 4"
| "steps_left (SaveText r out) = 3"
| "steps_left (Report out) = 1"
| "steps_left (Handler x) = 2"
| "steps_left (HandlerPrint x) = 1"
| "steps_left (Done r) = 0"

fun run_image :: "nat \<Rightarrow> args \<Rightarrow> env \<Rightarrow> string \<Rightarrow> stage \<Rightarrow> world \<Rightarrow> stage \<times> world" where
  "run_image 0 a e image_path s w = (s, w)"
| "run_image (Suc n) a e image_path s w =
     (case step_image a e image_path s w of (s', w') \<Rightarrow> run_image n a e image_path s' w')"

definition process_image :: "args \<Rightarrow> env \<Rightarrow> string \<Rightarrow> world \<Rightarrow> stage \<times> world" where
  "process_image a e image_path w = run_image (steps_left LogStart) a e image_path LogStart w"

section \<open>One batch on the thread pool\<close>

text \<open>
  \<^verbatim>\<open>executor.map(process_image, image_paths)\<close> inside \<^verbatim>\<open>with ThreadPoolExecutor\<close>:
  every path is queued in the order of the list, at most \<open>max_workers\<close> calls are in
  progress, a free worker takes the head of the queue, and leaving the \<^verbatim>\<open>with\<close> block
  waits until the queue is empty and no call is in progress. A task is the index of the
  item in the list, its path and the stage of its call. The pool records the result of
  every finished call with its index and path (the script itself never reads them).
\<close>

type_synonym task = "nat \<times> string \<times> stage"

record pool =
  queue :: "(nat \<times> string) list"
  active :: "task list"
  results :: "(nat \<times> string \<times> result) list"
  pworld :: world

definition init_pool :: "string list \<Rightarrow> world \<Rightarrow> pool" where
  "init_pool image_paths w =
     \<lparr>queue = zip [0..<length image_paths] image_paths, active = [], results = [], pworld = w\<rparr>"

definition finished :: "pool \<Rightarrow> bool" where
  "finished st = (queue st = [] \<and> active st = [])"

definition tick :: "nat \<Rightarrow> world \<Rightarrow> world" where
  "tick dt w = w\<lparr>clock := clock w + dt\<rparr>"

text \<open>
  The moves open in a state: one step of any call in progress, and, when a worker is free
  and the queue is not empty, the start of the next item. A move of the schedule is a
  pair: a number that selects among the open moves, and the ticks that pass before it.
\<close>

definition moves_enabled :: "nat \<Rightarrow> pool \<Rightarrow> nat" where
  "moves_enabled max_workers st =
     length (active st) + (if queue st \<noteq> [] \<and> length (active st) < max_workers then 1 else 0)"

definition pool_step :: "args \<Rightarrow> env \<Rightarrow> nat \<Rightarrow> nat \<times> nat \<Rightarrow> pool \<Rightarrow> pool" where
  "pool_step a e max_workers mv st =
     (let w = tick (snd mv) (pworld st);
          m = fst mv mod moves_enabled max_workers st
      in if m < length (active st) then
           (case active st ! m of (i, p, s) \<Rightarrow>
              (case step_image a e p s w of
                 (Done r, w') \<Rightarrow>
                   st\<lparr>active := take m (active st) @ drop (Suc m) (active st),
                      results := results st @ [(i, p, r)], pworld := w'\<rparr>
               | (s', w') \<Rightarrow> st\<lparr>active := (active st)[m := (i, p, s')], pworld := w'\<rparr>))
         else
           (case queue st of
              [] \<Rightarrow> st\<lparr>pworld := w\<rparr>
            | (i, p) # q \<Rightarrow> st\<lparr>queue := q, active := active st @ [(i, p, LogStart)], pworld := w\<rparr>))"

fun run_pool :: "args \<Rightarrow> env \<Rightarrow> nat \<Rightarrow> nat \<Rightarrow> (nat \<times> nat) list \<Rightarrow> pool \<Rightarrow> pool" where
  "run_pool a e max_workers 0 moves st = st"
| "run_pool a e max_workers (Suc fuel) moves st =
     (if finished st then st
      else run_pool a e max_workers fuel (tl moves)
             (pool_step a e max_workers (case moves of [] \<Rightarrow> (0, 0) | mv # _ \<Rightarrow> mv) st))"

text \<open>Line 173: \<^verbatim>\<open>[line.strip() for line in f if line.strip()]\<close>.\<close>

definition work_list :: "string \<Rightarrow> string list" where
  "work_list content = map strip (filter (\<lambda>line. strip line \<noteq> []) (file_lines content))"

text \<open>
  Lines 169 to 179. The schedule of a batch is the ticks that opening and reading the list
  takes beyond the first, and the moves of the pool. An item takes one move to start and
  at most \<open>steps_left LogStart\<close> steps, which bounds the moves of the batch.
  \<^verbatim>\<open>ThreadPoolExecutor\<close> raises \<^verbatim>\<open>ValueError\<close> for \<open>max_workers \<le> 0\<close>. An exception
  leaves the function with the world as it is at that point.
\<close>

type_synonym schedule = "nat \<times> (nat \<times> nat) list"

definition process_all_images ::
  "args \<Rightarrow> env \<Rightarrow> schedule \<Rightarrow> world \<Rightarrow> (py_exn \<times> world) + pool" where
  "process_all_images a e sched w =
     (case open_read w (image_list a) of
        Inl x \<Rightarrow> Inl (x, w)
      | Inr content \<Rightarrow>
          (let image_paths = work_list content;
               w1 = print (''Found '' @ str_nat (length image_paths) @ '' images in list'')
                      (tick (Suc (fst sched)) w)
           in if threads a \<le> 0 then Inl (ValueError ''max_workers must be greater than 0'', w1)
              else Inr (run_pool a e (nat (threads a))
                          (Suc (steps_left LogStart) * length image_paths) (snd sched)
                          (init_pool image_paths w1))))"

section \<open>The main loop\<close>

datatype loop_end = DeadlineReached | Uncaught py_exn

text \<open>
  Lines 185 to 188: \<^verbatim>\<open>while time.time() < end_time\<close>. The loop returns how it ended,
  the batches started, the deadline tests made, the calls of \<^verbatim>\<open>process_image\<close> that the
  batches made, and the world; \<open>k\<close>, \<open>c\<close> and \<open>n\<close> count them so far. A batch takes at
  least one tick of the clock, which is why the loop ends.
\<close>

function main_loop ::
  "args \<Rightarrow> env \<Rightarrow> (nat \<Rightarrow> schedule) \<Rightarrow> int \<Rightarrow> nat \<Rightarrow> nat \<Rightarrow> nat \<Rightarrow> world
     \<Rightarrow> loop_end \<times> nat \<times> nat \<times> nat \<times> world" where
  "main_loop a e scheds end_time k c n w =
     (if int (clock w) < end_time then
        (case process_all_images a e (scheds k)
                (print (''Starting new batch at '' @ ctime e (clock w)) w) of
           Inl (x, w') \<Rightarrow> (Uncaught x, Suc k, Suc c, n, w')
         | Inr st \<Rightarrow>
             main_loop a e scheds end_time (Suc k) (Suc c) (n + length (results st))
               (print (''Batch completed at '' @ ctime e (clock (pworld st))) (pworld st)))
      else (DeadlineReached, k, Suc c, n, w))"
  by pat_completeness auto
termination
proof (relation "measure (\<lambda>(a, e, scheds, end_time, k, c, n, w). nat (end_time - int (clock w)))", goal_cases)
  case 1
  show ?case by simp
next
  case (2 a e scheds end_time k c n w st)
  have step: "clock (snd (step_image a e p s v)) = clock v" for p s v
    by (cases s)
       (auto simp: open_append_def open_read_def open_write_def print_def Let_def
             split: sum.splits json.splits)
  have pstep: "clock (pworld q) \<le> clock (pworld (pool_step a e n mv q))" for n mv q
  proof -
    have "clock (snd (step_image a e p s (tick d (pworld q)))) = clock (pworld q) + d" for p s d
      using step [of p s "tick d (pworld q)"] by (simp add: tick_def)
    then show ?thesis
      by (auto simp: pool_step_def Let_def tick_def split: prod.splits stage.splits list.splits)
         (metis le_add1 snd_conv)+
  qed
  have rpool: "clock (pworld q) \<le> clock (pworld (run_pool a e n fuel mvs q))" for n fuel mvs q
  proof (induction fuel arbitrary: mvs q)
    case 0
    show ?case by simp
  next
    case (Suc fuel)
    show ?case
    proof (cases "finished q")
      case True
      then show ?thesis by simp
    next
      case False
      let ?q' = "pool_step a e n (case mvs of [] \<Rightarrow> (0, 0) | mv # _ \<Rightarrow> mv) q"
      have "clock (pworld q) \<le> clock (pworld ?q')" by (rule pstep)
      also have "\<dots> \<le> clock (pworld (run_pool a e n fuel (tl mvs) ?q'))" by (rule Suc.IH)
      finally show ?thesis using False by simp
    qed
  qed
  let ?w = "print (''Starting new batch at '' @ ctime e (clock w)) w"
  from 2(2) obtain content where st:
    "st = run_pool a e (nat (threads a)) (Suc (steps_left LogStart) * length (work_list content))
            (snd (scheds k))
            (init_pool (work_list content)
               (print (''Found '' @ str_nat (length (work_list content)) @ '' images in list'')
                  (tick (Suc (fst (scheds k))) ?w)))"
  proof (cases "open_read ?w (image_list a)")
    case (Inl x)
    with 2(2) show ?thesis by (simp add: process_all_images_def)
  next
    case (Inr content)
    with 2(2) have "st = run_pool a e (nat (threads a)) (Suc (steps_left LogStart) * length (work_list content))
            (snd (scheds k))
            (init_pool (work_list content)
               (print (''Found '' @ str_nat (length (work_list content)) @ '' images in list'')
                  (tick (Suc (fst (scheds k))) ?w)))"
      by (cases "threads a \<le> 0") (simp_all add: process_all_images_def Let_def del: steps_left.simps)
    then show ?thesis by (rule that)
  qed
  have "clock w < clock (pworld (init_pool (work_list content)
               (print (''Found '' @ str_nat (length (work_list content)) @ '' images in list'')
                  (tick (Suc (fst (scheds k))) ?w))))"
    by (simp add: init_pool_def print_def tick_def)
  also have "\<dots> \<le> clock (pworld st)"
    unfolding st by (rule rpool)
  finally show ?case
    using 2(1) by (simp add: print_def)
qed

declare main_loop.simps [simp del]



section \<open>The script from its command line\<close>


definition is_digit :: "char \<Rightarrow> bool" where
  "is_digit c = (48 \<le> (of_char c :: nat) \<and> (of_char c :: nat) \<le> 57)"


definition nat_of_digits :: "string \<Rightarrow> nat" where
  "nat_of_digits s = foldl (\<lambda>n c. 10 * n + (of_char c - 48)) 0 (filter is_digit s)"






section \<open>Invariants and sample inputs\<close>

text \<open>
  What the local variables of a stage always hold: the MIME type is the one guessed for
  the path, the request is built for the format of that type, and the two file names are
  built from the path and some timestamp.
\<close>

fun stage_inv :: "args \<Rightarrow> env \<Rightarrow> string \<Rightarrow> stage \<Rightarrow> bool" where
  "stage_inv a e p (ReadImage m) = (m = mime_type_of e p)"
| "stage_inv a e p (Stamp m b) = (m = mime_type_of e p)"
| "stage_inv a e p (Invoke req out resp) =
     ((\<exists>b. req = request_json (image_format_of (mime_type_of e p)) b) \<and>
      (\<exists>t. out = output_file_of a p t) \<and> resp = response_file_of out)"
| "stage_inv a e p (SaveResponse mr out resp) =
     ((\<exists>t. out = output_file_of a p t) \<and> resp = response_file_of out)"
| "stage_inv a e p (SaveText mr out) = (\<exists>t. out = output_file_of a p t)"
| "stage_inv a e p (Report out) = (\<exists>t. out = output_file_of a p t)"
| "stage_inv a e p s = True"

text \<open>
  A sample run: an endpoint that always answers with the text \<open>OK\<close>, and a list of two
  images, the second of which does not exist.
\<close>

definition good_response :: json where
  "good_response =
     JObj [(''output'', JObj [(''message'', JObj [(''content'', JArr [JObj [(''text'', JStr ''OK'')]])])])]"

definition demo_env :: env where
  "demo_env =
     \<lparr>guess_type = (\<lambda>p. if p = ''a.png'' then Some ''image/png'' else None),
      b64encode = (\<lambda>d. d),
      ctime = (\<lambda>t. ''now''),
      json_dumps = (\<lambda>j. ''{}''),
      json_dump_indent = (\<lambda>j. ''{}''),
      json_loads = (\<lambda>b. Inr good_response),
      environ = (\<lambda>v. False),
      make_client = (\<lambda>r. None),
      invoke_model = (\<lambda>n m b. Inr ''body'')\<rparr>"

definition demo_args :: args where
  "demo_args =
     \<lparr>image_list = ''list.txt'', output_dir = ''out'', region = ''us-west-2'', duration = 1,
      threads = 2, log_file = ''log'', profile_arn = ''arn''\<rparr>"

definition demo_list :: string where
  "demo_list = ''a.png'' @ [LF, LF] @ ''  '' @ [CR, LF] @ '' missing.png '' @ [LF]"

definition demo_world :: world where
  "demo_world =
     \<lparr>files = [''list.txt'' \<mapsto> demo_list, ''a.png'' \<mapsto> ''PNG''],
      denied = (\<lambda>p. False), clock = 0, stdout = [], stderr = [], invocations = []\<rparr>"

text \<open>Schedules that add no delay, and command lines that name a list that does not exist.\<close>

definition idle_schedules :: "nat \<Rightarrow> schedule" where
  "idle_schedules k = (0, [])"




text \<open>
  Invariants of the pool: the items of the queue, of the calls in progress and of the
  results are together the items of the list; a potential that every move lowers; and
  what holds of the calls in progress.
\<close>

definition task_id :: "nat \<times> string \<times> 'x \<Rightarrow> nat \<times> string" where
  "task_id t = (fst t, fst (snd t))"

definition pool_items :: "pool \<Rightarrow> (nat \<times> string) multiset" where
  "pool_items st =
     mset (queue st) + mset (map task_id (active st)) + mset (map task_id (results st))"

definition pool_potential :: "pool \<Rightarrow> nat" where
  "pool_potential st =
     sum_list (map (\<lambda>t. steps_left (snd (snd t))) (active st)) +
     Suc (steps_left LogStart) * length (queue st)"

definition pool_inv :: "nat \<Rightarrow> pool \<Rightarrow> bool" where
  "pool_inv n st =
     (length (active st) \<le> n \<and> (\<forall>t \<in> set (active st). \<forall>r. snd (snd t) \<noteq> Done r))"

text \<open>A world whose list has blank lines only.\<close>

definition blank_list :: string where
  "blank_list = [LF] @ ''  '' @ [LF]"

definition blank_world :: world where
  "blank_world = demo_world\<lparr>files := [''list.txt'' \<mapsto> blank_list]\<rparr>"



text \<open>
  Names for the worlds and the log lines of a call: a file with text appended, a file
  written, the endpoint called; the line of line 97 and the line of line 165; and what it
  means that a call failed with an exception \<open>x\<close> and logged it: it returned \<open>False\<close>, the
  log ends with the line for \<open>x\<close>, and the same message was printed. Then an endpoint that
  answers the first call with \<open>first\<close> and every later call with \<open>second\<close>, and a world
  in which the log cannot be opened.
\<close>

definition appended :: "world \<Rightarrow> string \<Rightarrow> string \<Rightarrow> world" where
  "appended w p c = w\<lparr>files := (files w)(p \<mapsto> (case files w p of None \<Rightarrow> c | Some old \<Rightarrow> old @ c))\<rparr>"

definition written :: "world \<Rightarrow> string \<Rightarrow> string \<Rightarrow> world" where
  "written w p c = w\<lparr>files := (files w)(p \<mapsto> c)\<rparr>"

definition called :: "world \<Rightarrow> string \<Rightarrow> json \<Rightarrow> world" where
  "called w m req = w\<lparr>invocations := invocations w @ [(m, req)]\<rparr>"

definition start_line :: "args \<Rightarrow> env \<Rightarrow> string \<Rightarrow> world \<Rightarrow> string" where
  "start_line a e p w =
     ctime e (clock w) @ '': Processing image: '' @ p @ '' (MIME type: '' @ mime_type_of e p @ '')'' @ [LF]"



definition echo_response :: "string \<Rightarrow> json" where
  "echo_response b =
     JObj [(''output'', JObj [(''message'', JObj [(''content'', JArr [JObj [(''text'', JStr b)]])])])]"

definition echo_env :: env where
  "echo_env =
     demo_env\<lparr>json_loads := (\<lambda>b. Inr (echo_response b)),
              invoke_model := (\<lambda>n m b. Inr (if n = 0 then ''first'' else ''second''))\<rparr>"



section \<open>Facts about the steps of one call\<close>


lemma step_image_denied: "denied (snd (step_image a e p s w)) = denied w"
  by (cases s)
     (auto simp: open_append_def open_read_def open_write_def print_def Let_def
           split: sum.splits json.splits)

lemma step_image_stderr: "stderr (snd (step_image a e p s w)) = stderr w"
  by (cases s)
     (auto simp: open_append_def open_read_def open_write_def print_def Let_def
           split: sum.splits json.splits)


lemma step_image_steps_left:
  "(\<And>r. s \<noteq> Done r) \<Longrightarrow> steps_left (fst (step_image a e p s w)) < steps_left s"
  by (cases s) (auto simp: Let_def split: sum.splits json.splits)

lemma run_image_Done [simp]: "run_image n a e p (Done r) w = (Done r, w)"
  by (induction n) auto


lemma contains_iff: "contains n h \<longleftrightarrow> (\<exists>u v. h = u @ n @ v)"
proof (induction h)
  case Nil
  show ?case by auto
next
  case (Cons c cs)
  show ?case
  proof
    assume "contains n (c # cs)"
    then consider "take (length n) (c # cs) = n" | "contains n cs" by auto
    then show "\<exists>u v. c # cs = u @ n @ v"
    proof cases
      case 1
      then have "c # cs = [] @ n @ drop (length n) (c # cs)"
        by (metis append_Nil append_take_drop_id)
      then show ?thesis by blast
    next
      case 2
      with Cons.IH obtain u v where "cs = u @ n @ v" by auto
      then have "c # cs = (c # u) @ n @ v" by simp
      then show ?thesis by blast
    qed
  next
    assume "\<exists>u v. c # cs = u @ n @ v"
    then obtain u v where uv: "c # cs = u @ n @ v" by auto
    show "contains n (c # cs)"
    proof (cases u)
      case Nil
      with uv have "take (length n) (c # cs) = n" by simp
      then show ?thesis by simp
    next
      case (Cons d u')
      with uv have "cs = u' @ n @ v" by simp
      with Cons.IH have "contains n cs" by auto
      then show ?thesis by simp
    qed
  qed
qed

lemma step_image_stage_inv:
  "stage_inv a e p s \<Longrightarrow> stage_inv a e p (fst (step_image a e p s w))"
  by (cases s) (auto simp: Let_def split: sum.splits json.splits)

lemma step_image_invocations:
  "invocations (snd (step_image a e p s w)) =
     (case s of Invoke req out resp \<Rightarrow> invocations w @ [(profile_arn a, req)]
              | _ \<Rightarrow> invocations w)"
  by (cases s)
     (auto simp: open_append_def open_read_def open_write_def print_def Let_def
           split: sum.splits json.splits)

lemma run_image_invocations:
  "stage_inv a e p s \<Longrightarrow>
     (steps_left s \<le> 4 \<longrightarrow> invocations (snd (run_image n a e p s w)) = invocations w) \<and>
     (invocations (snd (run_image n a e p s w)) = invocations w \<or>
      (\<exists>b. invocations (snd (run_image n a e p s w)) =
         invocations w @ [(profile_arn a, request_json (image_format_of (mime_type_of e p)) b)]))"
proof (induction n arbitrary: s w)
  case 0
  show ?case by simp
next
  case (Suc n)
  let ?s1 = "fst (step_image a e p s w)" and ?w1 = "snd (step_image a e p s w)"
  have run: "run_image (Suc n) a e p s w = run_image n a e p ?s1 ?w1"
    by (simp add: case_prod_unfold)
  have inv1: "stage_inv a e p ?s1"
    using Suc.prems by (rule step_image_stage_inv)
  note IH = Suc.IH [OF inv1, of ?w1]
  show ?case
  proof (cases "\<exists>req out resp. s = Invoke req out resp")
    case True
    then obtain req out resp where s: "s = Invoke req out resp" by blast
    with Suc.prems obtain b where req: "req = request_json (image_format_of (mime_type_of e p)) b"
      by auto
    have "steps_left ?s1 \<le> 4"
      using step_image_steps_left [of s a e p w] s by simp
    with IH have "invocations (snd (run_image n a e p ?s1 ?w1)) = invocations ?w1" by simp
    moreover have "invocations ?w1 = invocations w @ [(profile_arn a, req)]"
      unfolding s step_image_invocations by simp
    ultimately show ?thesis
      unfolding run using s req by auto
  next
    case False
    then have same: "invocations ?w1 = invocations w"
      unfolding step_image_invocations by (cases s) simp_all
    have "steps_left s \<le> 4 \<Longrightarrow> steps_left ?s1 \<le> 4"
    proof (cases "\<exists>r. s = Done r")
      case True
      then show ?thesis by auto
    next
      case False
      then have "steps_left ?s1 < steps_left s" by (intro step_image_steps_left) auto
      then show "steps_left s \<le> 4 \<Longrightarrow> steps_left ?s1 \<le> 4" by simp
    qed
    with IH same show ?thesis
      unfolding run by auto
  qed
qed

lemma declared_format_request:
  "declared_format (request_json f b) = Inr (JStr f)"
  by (simp add: declared_format_def request_json_def and_then_def)

lemma no_png_in_default: "\<not> contains ''png'' ''application/octet-stream''"
  by code_simp

lemma image_format_of_iff:
  "image_format_of m = (if \<exists>u v. m = u @ ''png'' @ v then ''png'' else ''jpeg'')"
proof -
  have "image_format_of m = (if contains ''png'' m then ''png'' else ''jpeg'')"
    by (cases m) (simp_all add: image_format_of_def)
  then show ?thesis unfolding contains_iff .
qed

section \<open>The deadline at the first test\<close>






section \<open>Errors of the configuration\<close>




lemma open_read_print [simp]: "open_read (print s w) q = open_read w q"
  by (simp add: open_read_def print_def)









section \<open>Facts about the pool\<close>

lemma pool_step_cases [consumes 3, case_names finish continue start]:
  assumes nf: "\<not> finished st" and n: "1 \<le> n" and le: "length (active st) \<le> n"
  obtains
    (finish) m i p s r w' where
      "m < length (active st)" "active st ! m = (i, p, s)"
      "step_image a e p s (tick (snd mv) (pworld st)) = (Done r, w')"
      "pool_step a e n mv st =
         st\<lparr>active := take m (active st) @ drop (Suc m) (active st),
            results := results st @ [(i, p, r)], pworld := w'\<rparr>"
  | (continue) m i p s s' w' where
      "m < length (active st)" "active st ! m = (i, p, s)"
      "step_image a e p s (tick (snd mv) (pworld st)) = (s', w')" "\<forall>r. s' \<noteq> Done r"
      "pool_step a e n mv st = st\<lparr>active := (active st)[m := (i, p, s')], pworld := w'\<rparr>"
  | (start) i p q where
      "queue st = (i, p) # q" "length (active st) < n"
      "pool_step a e n mv st =
         st\<lparr>queue := q, active := active st @ [(i, p, LogStart)],
            pworld := tick (snd mv) (pworld st)\<rparr>"
proof -
  let ?m = "fst mv mod moves_enabled n st"
  show thesis
  proof (cases "?m < length (active st)")
    case True
    obtain i p s where t: "active st ! ?m = (i, p, s)" by (cases "active st ! ?m") auto
    obtain s' w' where st: "step_image a e p s (tick (snd mv) (pworld st)) = (s', w')"
      by (cases "step_image a e p s (tick (snd mv) (pworld st))") auto
    show thesis
    proof (cases "\<exists>r. s' = Done r")
      case True
      then obtain r where r: "s' = Done r" by blast
      have "pool_step a e n mv st =
         st\<lparr>active := take ?m (active st) @ drop (Suc ?m) (active st),
            results := results st @ [(i, p, r)], pworld := w'\<rparr>"
        using \<open>?m < length (active st)\<close> t st r by (simp add: pool_step_def Let_def)
      with \<open>?m < length (active st)\<close> t st r show thesis by (intro finish) auto
    next
      case False
      then have "pool_step a e n mv st = st\<lparr>active := (active st)[?m := (i, p, s')], pworld := w'\<rparr>"
        using \<open>?m < length (active st)\<close> t st by (cases s') (simp_all add: pool_step_def Let_def)
      with \<open>?m < length (active st)\<close> t st False show thesis by (intro continue) auto
    qed
  next
    case False
    have en: "queue st \<noteq> [] \<and> length (active st) < n"
    proof (rule ccontr)
      assume c: "\<not> (queue st \<noteq> [] \<and> length (active st) < n)"
      then have me: "moves_enabled n st = length (active st)" by (auto simp: moves_enabled_def)
      have "active st \<noteq> []"
      proof
        assume "active st = []"
        with c n have "queue st = []" by auto
        with \<open>active st = []\<close> nf show False by (simp add: finished_def)
      qed
      then have "?m < length (active st)" unfolding me by simp
      with False show False by contradiction
    qed
    then obtain i p q where q: "queue st = (i, p) # q" by (cases "queue st") auto
    have "pool_step a e n mv st =
         st\<lparr>queue := q, active := active st @ [(i, p, LogStart)],
            pworld := tick (snd mv) (pworld st)\<rparr>"
      using False q by (simp add: pool_step_def Let_def)
    with q en show thesis by (intro start) auto
  qed
qed

lemma mset_remove_nth:
  assumes "m < length xs"
  shows "mset (take m xs @ drop (Suc m) xs) + {#xs ! m#} = mset xs"
proof -
  have e: "take m xs @ xs ! m # drop (Suc m) xs = xs"
    using id_take_nth_drop [OF assms] by (rule sym)
  have "mset (take m xs @ drop (Suc m) xs) + {#xs ! m#} =
      mset (take m xs @ xs ! m # drop (Suc m) xs)"
    by simp
  then show ?thesis unfolding e .
qed

lemma sum_list_remove_nth:
  fixes f :: "'a \<Rightarrow> nat"
  assumes "m < length xs"
  shows "sum_list (map f (take m xs @ drop (Suc m) xs)) + f (xs ! m) = sum_list (map f xs)"
proof -
  have e: "take m xs @ xs ! m # drop (Suc m) xs = xs"
    using id_take_nth_drop [OF assms] by (rule sym)
  have "sum_list (map f (take m xs @ drop (Suc m) xs)) + f (xs ! m) =
      sum_list (map f (take m xs @ xs ! m # drop (Suc m) xs))"
    by simp
  then show ?thesis unfolding e .
qed

lemma sum_list_update_nth:
  fixes f :: "'a \<Rightarrow> nat"
  assumes "m < length xs"
  shows "sum_list (map f (xs[m := y])) + f (xs ! m) = sum_list (map f xs) + f y"
proof -
  have "xs[m := y] = take m xs @ y # drop (Suc m) xs"
    using assms by (rule upd_conv_take_nth_drop)
  then have "sum_list (map f (xs[m := y])) =
      sum_list (map f (take m xs @ drop (Suc m) xs)) + f y"
    by simp
  with sum_list_remove_nth [OF assms, of f] show ?thesis by simp
qed

lemma pool_step_items:
  assumes "\<not> finished st" and "1 \<le> n" and "length (active st) \<le> n"
  shows "pool_items (pool_step a e n mv st) = pool_items st"
  using assms
proof (cases rule: pool_step_cases [where a = a and e = e and mv = mv])
  case (finish m i p s r w')
  have "mset (map task_id (take m (active st) @ drop (Suc m) (active st))) + {#(i, p)#} =
      mset (map task_id (active st))"
    using mset_remove_nth [of m "map task_id (active st)"] finish(1,2)
    by (simp add: take_map drop_map task_id_def)
  then show ?thesis
    unfolding finish(4) pool_items_def by (simp add: task_id_def)
next
  case (continue m i p s s' w')
  have "map task_id ((active st)[m := (i, p, s')]) = map task_id (active st)"
    using continue(1,2) by (simp add: map_update task_id_def list_update_same_conv)
  then show ?thesis
    unfolding continue(5) pool_items_def by simp
next
  case (start i p q)
  show ?thesis
    unfolding start(3) pool_items_def using start(1) by (simp add: task_id_def)
qed

lemma pool_step_inv:
  assumes "\<not> finished st" and "1 \<le> n" and "pool_inv n st"
  shows "pool_inv n (pool_step a e n mv st)"
proof -
  from assms(3) have le: "length (active st) \<le> n" by (simp add: pool_inv_def)
  from assms(1,2) le show ?thesis
  proof (cases rule: pool_step_cases [where a = a and e = e and mv = mv])
    case (finish m i p s r w')
    have "set (take m (active st)) \<subseteq> set (active st)"
      and "set (drop (Suc m) (active st)) \<subseteq> set (active st)"
      by (rule set_take_subset, rule set_drop_subset)
    then have "\<forall>t \<in> set (take m (active st) @ drop (Suc m) (active st)). \<forall>r. snd (snd t) \<noteq> Done r"
      using assms(3) by (auto simp: pool_inv_def)
    with le show ?thesis
      unfolding finish(4) pool_inv_def by simp
  next
    case (continue m i p s s' w')
    have sub: "set ((active st)[m := (i, p, s')]) \<subseteq> insert (i, p, s') (set (active st))"
      by (rule set_update_subset_insert)
    have "\<forall>r. snd (snd t) \<noteq> Done r" if "t \<in> set ((active st)[m := (i, p, s')])" for t
    proof -
      from that sub have "t = (i, p, s') \<or> t \<in> set (active st)" by auto
      then show ?thesis using continue(4) assms(3) by (auto simp: pool_inv_def)
    qed
    with le show ?thesis
      unfolding continue(5) pool_inv_def by simp
  next
    case (start i p q)
    with assms(3) show ?thesis
      unfolding start(3) pool_inv_def by auto
  qed
qed

lemma pool_step_potential:
  assumes "\<not> finished st" and "1 \<le> n" and "pool_inv n st"
  shows "pool_potential (pool_step a e n mv st) < pool_potential st"
proof -
  from assms(3) have le: "length (active st) \<le> n" by (simp add: pool_inv_def)
  let ?f = "\<lambda>t::task. steps_left (snd (snd t))"
  from assms(1,2) le show ?thesis
  proof (cases rule: pool_step_cases [where a = a and e = e and mv = mv])
    case (finish m i p s r w')
    from finish(1) have "active st ! m \<in> set (active st)" by (rule nth_mem)
    with assms(3) finish(2) have "\<forall>r. s \<noteq> Done r"
      unfolding pool_inv_def by fastforce
    then have "0 < steps_left s" by (cases s) auto
    with sum_list_remove_nth [of m "active st" ?f] finish(1,2)
    show ?thesis unfolding finish(4) pool_potential_def by simp
  next
    case (continue m i p s s' w')
    from continue(1) have "active st ! m \<in> set (active st)" by (rule nth_mem)
    with assms(3) continue(2) have "\<forall>r. s \<noteq> Done r"
      unfolding pool_inv_def by fastforce
    then have "steps_left (fst (step_image a e p s (tick (snd mv) (pworld st)))) < steps_left s"
      by (intro step_image_steps_left) auto
    then have "steps_left s' < steps_left s" by (simp add: continue(3))
    with sum_list_update_nth [of m "active st" ?f "(i, p, s')"] continue(1,2)
    show ?thesis unfolding continue(5) pool_potential_def by simp
  next
    case (start i p q)
    show ?thesis unfolding start(3) pool_potential_def using start(1) by simp
  qed
qed

lemma run_pool_invariant:
  assumes "P st" and "pool_inv n st" and "1 \<le> n"
    and step: "\<And>st mv. P st \<Longrightarrow> pool_inv n st \<Longrightarrow> \<not> finished st \<Longrightarrow> P (pool_step a e n mv st)"
  shows "P (run_pool a e n fuel mvs st) \<and> pool_inv n (run_pool a e n fuel mvs st)"
  using assms(1,2)
proof (induction fuel arbitrary: mvs st)
  case 0
  then show ?case by simp
next
  case (Suc fuel)
  show ?case
  proof (cases "finished st")
    case True
    with Suc.prems show ?thesis by simp
  next
    case False
    let ?mv = "case mvs of [] \<Rightarrow> (0, 0) | mv # _ \<Rightarrow> mv"
    have "P (pool_step a e n ?mv st)" using Suc.prems False by (intro step)
    moreover have "pool_inv n (pool_step a e n ?mv st)"
      using False assms(3) Suc.prems(2) by (rule pool_step_inv)
    ultimately show ?thesis using Suc.IH False by simp
  qed
qed

lemma run_pool_finished:
  assumes "pool_inv n st" and "1 \<le> n" and "pool_potential st \<le> fuel"
  shows "finished (run_pool a e n fuel mvs st)"
  using assms(1,3)
proof (induction fuel arbitrary: mvs st)
  case 0
  then have q: "queue st = []"
    and z: "sum_list (map (\<lambda>t. steps_left (snd (snd t))) (active st)) = 0"
    by (simp_all add: pool_potential_def)
  have "active st = []"
  proof (rule ccontr)
    assume "active st \<noteq> []"
    then obtain t where t: "t \<in> set (active st)" by (cases "active st") auto
    with 0(1) have "\<forall>r. snd (snd t) \<noteq> Done r" by (simp add: pool_inv_def)
    then have "0 < steps_left (snd (snd t))" by (cases "snd (snd t)") auto
    moreover from z t have "steps_left (snd (snd t)) = 0" by auto
    ultimately show False by simp
  qed
  with q have "active st = [] \<and> queue st = []" by simp
  then show ?case by (simp add: finished_def)
next
  case (Suc fuel)
  show ?case
  proof (cases "finished st")
    case True
    then show ?thesis by simp
  next
    case False
    let ?mv = "case mvs of [] \<Rightarrow> (0, 0) | mv # _ \<Rightarrow> mv"
    have "pool_potential (pool_step a e n ?mv st) < pool_potential st"
      using False assms(2) Suc.prems(1) by (rule pool_step_potential)
    with Suc.prems(2) have "pool_potential (pool_step a e n ?mv st) \<le> fuel" by simp
    moreover have "pool_inv n (pool_step a e n ?mv st)"
      using False assms(2) Suc.prems(1) by (rule pool_step_inv)
    ultimately show ?thesis using Suc.IH False by simp
  qed
qed

lemma step_image_returns:
  "step_image a e p s w = (Done r, w') \<Longrightarrow> \<forall>r. s \<noteq> Done r \<Longrightarrow> \<not> denied w (log_file a) \<Longrightarrow>
     \<exists>b. r = Returned b"
  by (cases s) (auto simp: Let_def open_append_def split: sum.splits json.splits if_splits)

lemma denied_tick [simp]: "denied (tick d w) = denied w"
  by (simp add: tick_def)

lemma pool_step_denied:
  assumes "\<not> finished st" and "1 \<le> n" and "pool_inv n st"
  shows "denied (pworld (pool_step a e n mv st)) = denied (pworld st)"
proof -
  from assms(3) have le: "length (active st) \<le> n" by (simp add: pool_inv_def)
  from assms(1,2) le show ?thesis
  proof (cases rule: pool_step_cases [where a = a and e = e and mv = mv])
    case (finish m i p s r w')
    from step_image_denied [of a e p s "tick (snd mv) (pworld st)"] show ?thesis
      unfolding finish(4) by (simp add: finish(3))
  next
    case (continue m i p s s' w')
    from step_image_denied [of a e p s "tick (snd mv) (pworld st)"] show ?thesis
      unfolding continue(5) by (simp add: continue(3))
  next
    case (start i p q)
    show ?thesis unfolding start(3) by simp
  qed
qed

lemma pool_step_returned:
  assumes "\<not> finished st" and "1 \<le> n" and "pool_inv n st"
    and "\<not> denied (pworld st) (log_file a)"
    and "\<forall>t \<in> set (results st). \<exists>b. snd (snd t) = Returned b"
  shows "\<forall>t \<in> set (results (pool_step a e n mv st)). \<exists>b. snd (snd t) = Returned b"
proof -
  from assms(3) have le: "length (active st) \<le> n" by (simp add: pool_inv_def)
  from assms(1,2) le show ?thesis
  proof (cases rule: pool_step_cases [where a = a and e = e and mv = mv])
    case (finish m i p s r w')
    from finish(1) have "active st ! m \<in> set (active st)" by (rule nth_mem)
    with assms(3) finish(2) have "\<forall>r. s \<noteq> Done r"
      unfolding pool_inv_def by fastforce
    with finish(3) assms(4) have "\<exists>b. r = Returned b"
      by (intro step_image_returns [of a e p s "tick (snd mv) (pworld st)" r w']) simp_all
    with assms(5) show ?thesis unfolding finish(4) by auto
  next
    case (continue m i p s s' w')
    with assms(5) show ?thesis by simp
  next
    case (start i p q)
    with assms(5) show ?thesis by simp
  qed
qed

lemma init_pool_facts:
  "pool_inv n (init_pool items w)"
  "pool_potential (init_pool items w) = Suc (steps_left LogStart) * length items"
  "pool_items (init_pool items w) = mset (zip [0..<length items] items)"
  "pworld (init_pool items w) = w"
  "results (init_pool items w) = []"
  by (simp_all add: init_pool_def pool_inv_def pool_potential_def pool_items_def del: steps_left.simps)

lemma batch_completes:
  assumes "open_read w (image_list a) = Inr content" and "1 \<le> threads a"
  shows "\<exists>st. process_all_images a e sched w = Inr st \<and> finished st \<and>
           mset (map task_id (results st)) =
             mset (zip [0..<length (work_list content)] (work_list content)) \<and>
           (\<not> denied w (log_file a) \<longrightarrow> (\<forall>t \<in> set (results st). \<exists>b. snd (snd t) = Returned b))"
proof -
  define items where "items = work_list content"
  define w1 where
    "w1 = print (''Found '' @ str_nat (length items) @ '' images in list'') (tick (Suc (fst sched)) w)"
  define st0 where "st0 = init_pool items w1"
  define n where "n = nat (threads a)"
  define st where "st = run_pool a e n (Suc (steps_left LogStart) * length items) (snd sched) st0"
  have n: "1 \<le> n" using assms(2) by (simp add: n_def)
  have inv0: "pool_inv n st0" unfolding st0_def by (rule init_pool_facts(1))
  have run: "process_all_images a e sched w = Inr st"
    using assms unfolding st_def st0_def n_def w1_def items_def
    by (simp add: process_all_images_def Let_def del: steps_left.simps)
  have fin: "finished st"
    unfolding st_def by (rule run_pool_finished [OF inv0 n]) (simp add: st0_def init_pool_facts(2))
  have "pool_items st = pool_items st0 \<and> pool_inv n st"
    unfolding st_def
  proof (rule run_pool_invariant [OF _ inv0 n])
    show "pool_items st0 = pool_items st0" by simp
  next
    fix st mv
    assume "pool_items st = pool_items st0" and "pool_inv n st" and "\<not> finished st"
    then show "pool_items (pool_step a e n mv st) = pool_items st0"
      using pool_step_items [of st n a e mv] n by (simp add: pool_inv_def)
  qed
  then have "pool_items st = mset (zip [0..<length items] items)"
    by (simp add: st0_def init_pool_facts(3))
  moreover have "pool_items st = mset (map task_id (results st))"
    using fin by (simp add: pool_items_def finished_def)
  ultimately have items: "mset (map task_id (results st)) = mset (zip [0..<length items] items)"
    by simp
  have ret: "\<forall>t \<in> set (results st). \<exists>b. snd (snd t) = Returned b" if log: "\<not> denied w (log_file a)"
  proof -
    let ?P = "\<lambda>st. \<not> denied (pworld st) (log_file a) \<and>
        (\<forall>t \<in> set (results st). \<exists>b. snd (snd t) = Returned b)"
    have "?P st0" using log by (simp add: st0_def w1_def init_pool_facts print_def)
    then have "?P st \<and> pool_inv n st"
      unfolding st_def
    proof (rule run_pool_invariant [OF _ inv0 n])
      fix st mv
      assume "?P st" and "pool_inv n st" and "\<not> finished st"
      then show "?P (pool_step a e n mv st)"
        using pool_step_denied [of st n a e mv] pool_step_returned [of st n a e mv] n
        by simp
    qed
    then show ?thesis by simp
  qed
  from run fin items ret show ?thesis unfolding items_def by blast
qed

lemma results_cover:
  fixes rs :: "(nat \<times> string \<times> result) list"
  assumes "mset (map task_id rs) = mset (zip [0..<length items] items)"
  shows "length rs = length items"
    and "mset (map fst rs) = mset [0..<length items]"
    and "\<forall>t \<in> set rs. fst t < length items \<and> fst (snd t) = items ! fst t"
    and "\<forall>i < length items. \<exists>r. (i, items ! i, r) \<in> set rs"
proof -
  from assms have "length (map task_id rs) = length (zip [0..<length items] items)"
    by (rule mset_eq_length)
  then show "length rs = length items" by simp
  have a: "map fst (map task_id rs) = map fst rs"
    by (induction rs) (simp_all add: task_id_def)
  from assms have "image_mset fst (mset (map task_id rs)) =
      image_mset fst (mset (zip [0..<length items] items))"
    by (rule arg_cong)
  then have "mset (map fst (map task_id rs)) = mset (map fst (zip [0..<length items] items))"
    by (simp only: mset_map)
  then show "mset (map fst rs) = mset [0..<length items]"
    unfolding a by simp
  from assms have sets: "set (map task_id rs) = set (zip [0..<length items] items)"
    by (rule mset_eq_setD)
  show "\<forall>t \<in> set rs. fst t < length items \<and> fst (snd t) = items ! fst t"
  proof
    fix t assume "t \<in> set rs"
    then have "task_id t \<in> set (zip [0..<length items] items)" using sets by auto
    then obtain j where "j < length items" and "task_id t = ([0..<length items] ! j, items ! j)"
      by (auto simp: in_set_zip)
    then show "fst t < length items \<and> fst (snd t) = items ! fst t"
      by (simp add: task_id_def)
  qed
  show "\<forall>i < length items. \<exists>r. (i, items ! i, r) \<in> set rs"
  proof (intro allI impI)
    fix i assume i: "i < length items"
    then have "[0..<length items] ! i = i \<and> items ! i = items ! i \<and> i < length items"
      by simp
    then have "(i, items ! i) \<in> set (zip [0..<length items] items)"
      unfolding in_set_zip by (intro exI [of _ i]) simp
    with sets have "(i, items ! i) \<in> task_id ` set rs" by simp
    then have "\<exists>t \<in> set rs. (i, items ! i) = task_id t" by (simp only: image_iff)
    then obtain t where t: "t \<in> set rs" and eq: "(i, items ! i) = task_id t" by (elim bexE)
    from eq have "t = (i, items ! i, snd (snd t))"
      by (cases t) (simp add: task_id_def)
    with t have "(i, items ! i, snd (snd t)) \<in> set rs" by simp
    then show "\<exists>r. (i, items ! i, r) \<in> set rs" by (rule exI)
  qed
qed

lemma work_list_demo: "work_list demo_list = [''a.png'', ''missing.png'']"
  by (simp add: work_list_def demo_list_def file_lines_def strip_def is_space_def LF_def CR_def)

section \<open>The outcomes of a batch\<close>

lemma demo_list_readable: "open_read demo_world (image_list demo_args) = Inr demo_list"
  by (simp add: open_read_def demo_world_def demo_args_def)

text \<open>
  C2: for every worker count of at least 1, every schedule of the pool and every list,
  one call of \<^verbatim>\<open>process_all_images\<close> ends with exactly one result for every item of
  the list: as many results as items, every index once, every result with the path of
  its index; and every result is a returned \<open>True\<close> or \<open>False\<close> when the log can be
  opened.
\<close>

theorem batch_outcomes:
  "open_read w (image_list a) = Inr content \<Longrightarrow> 1 \<le> threads a \<Longrightarrow>
     \<exists>st. process_all_images a e sched w = Inr st \<and>
       length (results st) = length (work_list content) \<and>
       mset (map fst (results st)) = mset [0..<length (work_list content)] \<and>
       (\<forall>t \<in> set (results st). fst (snd t) = work_list content ! fst t) \<and>
       (\<not> denied w (log_file a) \<longrightarrow> (\<forall>t \<in> set (results st). \<exists>b. snd (snd t) = Returned b))"
proof -
  assume "open_read w (image_list a) = Inr content" and "1 \<le> threads a"
  from batch_completes [OF this, of e sched] obtain st where
    run: "process_all_images a e sched w = Inr st" and
    items: "mset (map task_id (results st)) =
      mset (zip [0..<length (work_list content)] (work_list content))" and
    ret: "\<not> denied w (log_file a) \<longrightarrow> (\<forall>t \<in> set (results st). \<exists>b. snd (snd t) = Returned b)"
    by blast
  from results_cover [OF items] run ret show ?thesis by blast
qed

theorem batch_outcomes_witness:
  "open_read demo_world (image_list demo_args) = Inr demo_list \<and> 1 \<le> threads demo_args \<and>
   \<not> denied demo_world (log_file demo_args) \<and> work_list demo_list = [''a.png'', ''missing.png''] \<and>
   (\<exists>st. process_all_images demo_args demo_env (0, [(1, 5), (0, 3)]) demo_world = Inr st \<and>
      length (results st) = length (work_list demo_list) \<and>
      mset (map fst (results st)) = mset [0..<length (work_list demo_list)] \<and>
      (\<forall>t \<in> set (results st). fst (snd t) = work_list demo_list ! fst t) \<and>
      (\<not> denied demo_world (log_file demo_args) \<longrightarrow>
         (\<forall>t \<in> set (results st). \<exists>b. snd (snd t) = Returned b)))"
proof -
  have t: "1 \<le> threads demo_args" and d: "\<not> denied demo_world (log_file demo_args)"
    by (simp_all add: demo_args_def demo_world_def)
  note c = batch_outcomes [OF demo_list_readable t, of demo_env "(0, [(1, 5), (0, 3)])"]
  from demo_list_readable t d work_list_demo c show ?thesis by blast
qed

section \<open>The join at the end of a batch\<close>

lemma batch_in_loop:
  assumes "int (clock w) < end_time" and "process_all_images a e (scheds k)
      (print (''Starting new batch at '' @ ctime e (clock w)) w) = Inr st"
  shows "main_loop a e scheds end_time k c n w =
     main_loop a e scheds end_time (Suc k) (Suc c) (n + length (results st))
       (print (''Batch completed at '' @ ctime e (clock (pworld st))) (pworld st))"
  using assms by (subst main_loop.simps) simp

text \<open>
  C3: a batch that the loop starts returns with an empty queue, no call in progress and a
  result for every item of the list, and only from that state does the loop go on to its
  next deadline test; no item is dropped and no call is cut short.
\<close>

theorem batch_full_join:
  "int (clock w) < end_time \<Longrightarrow> open_read w (image_list a) = Inr content \<Longrightarrow> 1 \<le> threads a \<Longrightarrow>
     \<exists>st. process_all_images a e (scheds k)
            (print (''Starting new batch at '' @ ctime e (clock w)) w) = Inr st \<and>
       queue st = [] \<and> active st = [] \<and>
       (\<forall>i < length (work_list content). \<exists>r. (i, work_list content ! i, r) \<in> set (results st)) \<and>
       main_loop a e scheds end_time k c n w =
         main_loop a e scheds end_time (Suc k) (Suc c) (n + length (work_list content))
           (print (''Batch completed at '' @ ctime e (clock (pworld st))) (pworld st))"
proof -
  assume lt: "int (clock w) < end_time" and rd: "open_read w (image_list a) = Inr content"
    and th: "1 \<le> threads a"
  let ?w = "print (''Starting new batch at '' @ ctime e (clock w)) w"
  from rd have "open_read ?w (image_list a) = Inr content" by simp
  from batch_completes [OF this th, of e "scheds k"] obtain st where
    run: "process_all_images a e (scheds k) ?w = Inr st" and fin: "finished st" and
    items: "mset (map task_id (results st)) =
      mset (zip [0..<length (work_list content)] (work_list content))"
    by blast
  note cover = results_cover [OF items]
  from batch_in_loop [where scheds = scheds and k = k and c = c and n = n, OF lt run] cover(1)
  have "main_loop a e scheds end_time k c n w =
         main_loop a e scheds end_time (Suc k) (Suc c) (n + length (work_list content))
           (print (''Batch completed at '' @ ctime e (clock (pworld st))) (pworld st))"
    by simp
  with run fin cover(4) show ?thesis unfolding finished_def by blast
qed

lemma demo_clock: "int (clock demo_world) < 5"
  by (simp add: demo_world_def)

theorem batch_full_join_witness:
  "int (clock demo_world) < 5 \<and> open_read demo_world (image_list demo_args) = Inr demo_list \<and>
   1 \<le> threads demo_args \<and> work_list demo_list = [''a.png'', ''missing.png''] \<and>
   (\<exists>st. process_all_images demo_args demo_env (idle_schedules 0)
            (print (''Starting new batch at '' @ ctime demo_env (clock demo_world)) demo_world) = Inr st \<and>
       queue st = [] \<and> active st = [] \<and>
       (\<forall>i < length (work_list demo_list). \<exists>r. (i, work_list demo_list ! i, r) \<in> set (results st)) \<and>
       main_loop demo_args demo_env idle_schedules 5 0 0 0 demo_world =
         main_loop demo_args demo_env idle_schedules 5 (Suc 0) (Suc 0) (0 + length (work_list demo_list))
           (print (''Batch completed at '' @ ctime demo_env (clock (pworld st))) (pworld st)))"
proof -
  have t: "1 \<le> threads demo_args" by (simp add: demo_args_def)
  note c = batch_full_join [OF demo_clock demo_list_readable t, of demo_env idle_schedules 0 0 0]
  from demo_clock demo_list_readable t work_list_demo c show ?thesis by blast
qed

section \<open>The work list of a batch\<close>

lemma strip_empty_iff: "strip l = [] \<longleftrightarrow> (\<forall>c \<in> set l. is_space c)"
proof -
  have "strip l = [] \<longleftrightarrow> (\<forall>c \<in> set (dropWhile is_space l). is_space c)"
    by (simp add: strip_def)
  also have "\<dots> \<longleftrightarrow> dropWhile is_space l = []"
  proof
    assume a: "\<forall>c \<in> set (dropWhile is_space l). is_space c"
    show "dropWhile is_space l = []"
    proof (rule ccontr)
      assume n: "dropWhile is_space l \<noteq> []"
      then have "\<not> is_space (hd (dropWhile is_space l))" by (rule hd_dropWhile)
      moreover from n have "hd (dropWhile is_space l) \<in> set (dropWhile is_space l)" by simp
      ultimately show False using a by blast
    qed
  next
    assume e: "dropWhile is_space l = []"
    show "\<forall>c \<in> set (dropWhile is_space l). is_space c" unfolding e by simp
  qed
  also have "\<dots> \<longleftrightarrow> (\<forall>c \<in> set l. is_space c)"
    by simp
  finally show ?thesis .
qed

lemma work_list_nonblank:
  "work_list content = map strip (filter (\<lambda>l. \<exists>c \<in> set l. \<not> is_space c) (file_lines content))"
  by (simp add: work_list_def strip_empty_iff)

lemma results_paths:
  fixes rs :: "(nat \<times> string \<times> result) list"
  assumes "mset (map task_id rs) = mset (zip [0..<length items] items)"
  shows "mset (map (\<lambda>t. fst (snd t)) rs) = mset items"
proof -
  have a: "map snd (map task_id rs) = map (\<lambda>t. fst (snd t)) rs"
    by (induction rs) (simp_all add: task_id_def)
  from assms have "image_mset snd (mset (map task_id rs)) =
      image_mset snd (mset (zip [0..<length items] items))"
    by (rule arg_cong)
  then have "mset (map snd (map task_id rs)) = mset (map snd (zip [0..<length items] items))"
    by (simp only: mset_map)
  then show ?thesis unfolding a by simp
qed

lemma empty_batch:
  assumes "process_all_images a e sched w = Inr st" and "open_read w (image_list a) = Inr content"
    and "work_list content = []"
  shows "results st = [] \<and> files (pworld st) = files w \<and> invocations (pworld st) = invocations w \<and>
    stderr (pworld st) = stderr w"
  using assms
  by (auto simp: process_all_images_def Let_def init_pool_def print_def tick_def split: if_splits)

lemma blank_list_empty: "work_list blank_list = []"
  by (simp add: work_list_def blank_list_def file_lines_def strip_def is_space_def LF_def CR_def)

lemma blank_list_readable: "open_read blank_world (image_list demo_args) = Inr blank_list"
  by (simp add: open_read_def blank_world_def demo_world_def demo_args_def)

text \<open>
  C6: every batch that the loop starts reads the list file as it is in the world at that
  moment; the paths it processes are, each once, the stripped lines that have a character
  that is not white space, and a line of white space gives none; a list without such a
  line is no error: the batch returns with no result and has touched no file, made no
  call of the endpoint and reported nothing.
\<close>

theorem work_list_every_batch:
  "open_read w (image_list a) = Inr content \<Longrightarrow> 1 \<le> threads a \<Longrightarrow>
     \<exists>st. process_all_images a e (scheds k)
            (print (''Starting new batch at '' @ ctime e (clock w)) w) = Inr st \<and>
       mset (map (\<lambda>t. fst (snd t)) (results st)) = mset (work_list content) \<and>
       work_list content =
         map strip (filter (\<lambda>l. \<exists>c \<in> set l. \<not> is_space c) (file_lines content)) \<and>
       (work_list content = [] \<longrightarrow>
          results st = [] \<and> files (pworld st) = files w \<and>
          invocations (pworld st) = invocations w \<and> stderr (pworld st) = stderr w)"
proof -
  assume rd: "open_read w (image_list a) = Inr content" and th: "1 \<le> threads a"
  let ?w = "print (''Starting new batch at '' @ ctime e (clock w)) w"
  from rd have rd': "open_read ?w (image_list a) = Inr content" by simp
  from batch_completes [OF rd' th, of e "scheds k"] obtain st where
    run: "process_all_images a e (scheds k) ?w = Inr st" and
    items: "mset (map task_id (results st)) =
      mset (zip [0..<length (work_list content)] (work_list content))"
    by blast
  have "work_list content = [] \<longrightarrow>
          results st = [] \<and> files (pworld st) = files w \<and>
          invocations (pworld st) = invocations w \<and> stderr (pworld st) = stderr w"
    using empty_batch [OF run rd'] by (simp add: print_def)
  with run results_paths [OF items] work_list_nonblank [of content] show ?thesis by blast
qed

theorem work_list_every_batch_witness:
  "open_read demo_world (image_list demo_args) = Inr demo_list \<and>
   open_read blank_world (image_list demo_args) = Inr blank_list \<and> 1 \<le> threads demo_args \<and>
   work_list demo_list = [''a.png'', ''missing.png''] \<and> work_list blank_list = [] \<and>
   (\<exists>st. process_all_images demo_args demo_env (idle_schedules 0)
            (print (''Starting new batch at '' @ ctime demo_env (clock demo_world)) demo_world) = Inr st \<and>
       mset (map (\<lambda>t. fst (snd t)) (results st)) = mset (work_list demo_list)) \<and>
   (\<exists>st. process_all_images demo_args demo_env (idle_schedules 0)
            (print (''Starting new batch at '' @ ctime demo_env (clock blank_world)) blank_world) = Inr st \<and>
       results st = [] \<and> files (pworld st) = files blank_world \<and>
       invocations (pworld st) = invocations blank_world \<and> stderr (pworld st) = stderr blank_world)"
proof -
  have t: "1 \<le> threads demo_args" by (simp add: demo_args_def)
  note c1 = work_list_every_batch [OF demo_list_readable t, of demo_env idle_schedules 0]
  note c2 = work_list_every_batch [OF blank_list_readable t, of demo_env idle_schedules 0]
  from c1 have d1: "\<exists>st. process_all_images demo_args demo_env (idle_schedules 0)
            (print (''Starting new batch at '' @ ctime demo_env (clock demo_world)) demo_world) = Inr st \<and>
       mset (map (\<lambda>t. fst (snd t)) (results st)) = mset (work_list demo_list)"
    by blast
  from c2 blank_list_empty have d2: "\<exists>st. process_all_images demo_args demo_env (idle_schedules 0)
            (print (''Starting new batch at '' @ ctime demo_env (clock blank_world)) blank_world) = Inr st \<and>
       results st = [] \<and> files (pworld st) = files blank_world \<and>
       invocations (pworld st) = invocations blank_world \<and> stderr (pworld st) = stderr blank_world"
    by blast
  from demo_list_readable blank_list_readable t work_list_demo blank_list_empty d1 d2
  show ?thesis by blast
qed

section \<open>The deadline and the number of batches\<close>










section \<open>One call along each of its paths\<close>

lemma of_char_digit_char: "d < 10 \<Longrightarrow> (of_char (digit_char d) :: nat) = 48 + d"
  by (simp add: digit_char_def)

lemma is_digit_digit_char: "d < 10 \<Longrightarrow> is_digit (digit_char d)"
  by (simp add: is_digit_def of_char_digit_char)

lemma underscore_not_digit: "\<not> is_digit (CHR ''_'')"
  by (simp add: is_digit_def)

lemma str_nat_digits: "\<forall>c \<in> set (str_nat n). is_digit c"
proof (induction n rule: str_nat.induct)
  case (1 n)
  show ?case
  proof (cases "n < 10")
    case True
    then show ?thesis by (subst str_nat.simps) (simp add: is_digit_digit_char)
  next
    case False
    then have "str_nat n = str_nat (n div 10) @ [digit_char (n mod 10)]"
      by (subst str_nat.simps) simp
    moreover have "is_digit (digit_char (n mod 10))" by (rule is_digit_digit_char) simp
    ultimately show ?thesis using 1 False by simp
  qed
qed

lemma nat_of_digits_str_nat: "nat_of_digits (str_nat n) = n"
proof (induction n rule: str_nat.induct)
  case (1 n)
  show ?case
  proof (cases "n < 10")
    case True
    then have "str_nat n = [digit_char n]" by (subst str_nat.simps) simp
    with True show ?thesis
      by (simp add: nat_of_digits_def is_digit_digit_char of_char_digit_char)
  next
    case False
    then have s: "str_nat n = str_nat (n div 10) @ [digit_char (n mod 10)]"
      by (subst str_nat.simps) simp
    have d: "n mod 10 < 10" by simp
    from 1 False have "nat_of_digits (str_nat (n div 10)) = n div 10" by simp
    then show ?thesis
      unfolding s using d
      by (simp add: nat_of_digits_def is_digit_digit_char of_char_digit_char)
  qed
qed

lemma str_nat_inj: "str_nat n = str_nat m \<Longrightarrow> n = m"
  by (metis nat_of_digits_str_nat)

lemma split_at_last:
  assumes "xs @ c # ys = xs' @ c # ys'" and "c \<notin> set ys" and "c \<notin> set ys'"
  shows "xs = xs' \<and> ys = ys'"
proof -
  from assms(1) have "rev (xs @ c # ys) = rev (xs' @ c # ys')" by (rule arg_cong)
  then have r: "rev ys @ c # rev xs = rev ys' @ c # rev xs'" by simp
  have "takeWhile (\<lambda>x. x \<noteq> c) (rev ys @ c # rev xs) = rev ys"
    using assms(2) by (auto simp: takeWhile_tail)
  moreover have "takeWhile (\<lambda>x. x \<noteq> c) (rev ys' @ c # rev xs') = rev ys'"
    using assms(3) by (auto simp: takeWhile_tail)
  ultimately have "rev ys = rev ys'" using r by simp
  then have "ys = ys'" by simp
  with assms(1) show ?thesis by simp
qed

lemma artifact_name_inj:
  assumes "b @ ''_'' @ str_nat t @ ''.txt'' = b' @ ''_'' @ str_nat t' @ ''.txt''"
  shows "b = b' \<and> t = t'"
proof -
  have u: "CHR ''_'' \<notin> set (str_nat n)" for n
    using str_nat_digits [of n] underscore_not_digit by blast
  from assms have "b @ CHR ''_'' # str_nat t = b' @ CHR ''_'' # str_nat t'"
    by simp
  from split_at_last [OF this u u] show ?thesis by (auto dest: str_nat_inj)
qed

lemma basename_no_slash: "CHR ''/'' \<notin> set (basename p)"
proof -
  have "\<forall>c \<in> set (takeWhile (\<lambda>c. c \<noteq> CHR ''/'') (rev p)). c \<noteq> CHR ''/''"
    by (auto dest: set_takeWhileD)
  then show ?thesis by (auto simp: basename_def)
qed

lemma path_join_name:
  assumes "take 1 name \<noteq> ''/''"
  shows "path_join d name = (if d = [] \<or> last d = CHR ''/'' then d else d @ ''/'') @ name"
  using assms by (simp add: path_join_def)

lemma artifact_not_absolute: "take 1 (basename p @ ''_'' @ str_nat t @ ''.txt'') \<noteq> ''/''"
proof (cases "basename p")
  case Nil
  then show ?thesis by simp
next
  case (Cons c cs)
  with basename_no_slash [of p] have "c \<noteq> CHR ''/''" by auto
  with Cons show ?thesis by simp
qed

lemma output_file_of_eq:
  "output_file_of a p t =
     (if output_dir a = [] \<or> last (output_dir a) = CHR ''/'' then output_dir a
      else output_dir a @ ''/'') @ basename p @ ''_'' @ str_nat t @ ''.txt''"
  unfolding output_file_of_def by (rule path_join_name) (rule artifact_not_absolute)

lemma output_file_of_inj:
  "output_file_of a p t = output_file_of a p' t' \<longleftrightarrow> basename p = basename p' \<and> t = t'"
proof
  assume "output_file_of a p t = output_file_of a p' t'"
  then have "basename p @ ''_'' @ str_nat t @ ''.txt'' = basename p' @ ''_'' @ str_nat t' @ ''.txt''"
    unfolding output_file_of_eq by (simp only: same_append_eq)
  then show "basename p = basename p' \<and> t = t'" by (rule artifact_name_inj)
next
  assume "basename p = basename p' \<and> t = t'"
  then show "output_file_of a p t = output_file_of a p' t'" by (simp add: output_file_of_def)
qed

lemma response_file_of_inj: "response_file_of x = response_file_of y \<longleftrightarrow> x = y"
  by (simp add: response_file_of_def)

lemma output_not_response: "output_file_of a p t \<noteq> response_file_of x"
proof
  assume e: "output_file_of a p t = response_file_of x"
  have "last (output_file_of a p t) = CHR ''t''"
    unfolding output_file_of_eq by simp
  moreover have "last (response_file_of x) = CHR ''n''"
    by (simp add: response_file_of_def)
  ultimately show False using e by simp
qed

lemma open_append_ok: "\<not> denied w p \<Longrightarrow> open_append w p c = Inr (appended w p c)"
  by (simp add: open_append_def appended_def)

lemma open_write_ok: "\<not> denied w p \<Longrightarrow> open_write w p c = Inr (written w p c)"
  by (simp add: open_write_def written_def)

lemma open_write_denied: "denied w p \<Longrightarrow> \<exists>x. open_write w p c = Inl x"
  by (simp add: open_write_def)

lemma world_simps [simp]:
  "denied (appended w p c) = denied w" "clock (appended w p c) = clock w"
  "invocations (appended w p c) = invocations w" "stdout (appended w p c) = stdout w"
  "denied (written w p c) = denied w" "clock (written w p c) = clock w"
  "invocations (written w p c) = invocations w" "stdout (written w p c) = stdout w"
  "denied (called w m r) = denied w" "clock (called w m r) = clock w"
  "files (called w m r) = files w" "stdout (called w m r) = stdout w"
  "invocations (called w m r) = invocations w @ [(m, r)]"
  "denied (print s w) = denied w" "clock (print s w) = clock w"
  "files (print s w) = files w" "invocations (print s w) = invocations w"
  "stdout (print s w) = stdout w @ [s]"
  "files (written w p c) = (files w)(p \<mapsto> c)"
  by (simp_all add: appended_def written_def called_def print_def)

lemma appended_files:
  "\<exists>old. files (appended w p c) p = Some (old @ c)"
  "q \<noteq> p \<Longrightarrow> files (appended w p c) q = files w q"
  by (cases "files w p"; simp add: appended_def)+

lemma open_read_appended: "q \<noteq> p \<Longrightarrow> open_read (appended w p c) q = open_read w q"
  by (simp add: open_read_def appended_files)

lemma run_LogStart:
  "\<not> denied w (log_file a) \<Longrightarrow>
     run_image (Suc n) a e p LogStart w =
       run_image n a e p (ReadImage (mime_type_of e p)) (appended w (log_file a) (start_line a e p w))"
  by (simp add: open_append_ok start_line_def Let_def)

lemma run_ReadImage_fail:
  "open_read w p = Inl x \<Longrightarrow> run_image (Suc n) a e p (ReadImage m) w = run_image n a e p (Handler x) w"
  by simp

lemma run_ReadImage_ok:
  "open_read w p = Inr data \<Longrightarrow>
     run_image (Suc (Suc n)) a e p (ReadImage m) w =
       run_image n a e p
         (Invoke (request_json (image_format_of m) (b64encode e data))
            (output_file_of a p (clock w div ticks_per_second))
            (response_file_of (output_file_of a p (clock w div ticks_per_second)))) w"
  by (simp add: Let_def)

lemma run_Invoke_fail:
  "invoke_model e (length (invocations w)) (profile_arn a) (json_dumps e req) = Inl x \<Longrightarrow>
     run_image (Suc n) a e p (Invoke req out resp) w =
       run_image n a e p (Handler x) (called w (profile_arn a) req)"
  by (simp add: Let_def called_def)

lemma run_Invoke_garbled:
  "invoke_model e (length (invocations w)) (profile_arn a) (json_dumps e req) = Inr body \<Longrightarrow>
   json_loads e body = Inl x \<Longrightarrow>
     run_image (Suc n) a e p (Invoke req out resp) w =
       run_image n a e p (Handler x) (called w (profile_arn a) req)"
  by (simp add: Let_def called_def)

lemma run_Invoke_ok:
  "invoke_model e (length (invocations w)) (profile_arn a) (json_dumps e req) = Inr body \<Longrightarrow>
   json_loads e body = Inr mr \<Longrightarrow>
     run_image (Suc n) a e p (Invoke req out resp) w =
       run_image n a e p (SaveResponse mr out resp) (called w (profile_arn a) req)"
  by (simp add: Let_def called_def)

lemma run_SaveResponse_fail:
  "open_write w resp (json_dump_indent e mr) = Inl x \<Longrightarrow>
     run_image (Suc n) a e p (SaveResponse mr out resp) w = run_image n a e p (Handler x) w"
  by simp

lemma run_SaveResponse_ok:
  "\<not> denied w resp \<Longrightarrow>
     run_image (Suc n) a e p (SaveResponse mr out resp) w =
       run_image n a e p (SaveText mr out) (written w resp (json_dump_indent e mr))"
  by (simp add: open_write_ok)

lemma run_SaveText_malformed:
  "content_text mr = Inl x \<Longrightarrow>
     run_image (Suc n) a e p (SaveText mr out) w = run_image n a e p (Handler x) w"
  by simp

lemma run_SaveText_denied:
  "content_text mr = Inr v \<Longrightarrow> open_write w out [] = Inl x \<Longrightarrow>
     run_image (Suc n) a e p (SaveText mr out) w = run_image n a e p (Handler x) w"
  by simp

lemma run_SaveText_not_str:
  "content_text mr = Inr v \<Longrightarrow> \<not> denied w out \<Longrightarrow> \<forall>s. v \<noteq> JStr s \<Longrightarrow>
     run_image (Suc n) a e p (SaveText mr out) w =
       run_image n a e p (Handler (TypeError ''write() argument must be str'')) (written w out [])"
  by (cases v) (simp_all add: open_write_ok)

lemma run_SaveText_ok:
  "content_text mr = Inr (JStr s) \<Longrightarrow> \<not> denied w out \<Longrightarrow>
     run_image (Suc (Suc n)) a e p (SaveText mr out) w =
       (Done (Returned True), print (''Response saved to: '' @ out) (written w out s))"
  by (simp add: open_write_ok written_def)



lemma run_Handler_not_True:
  "run_image n a e p (Handler x) w \<noteq> (Done (Returned True), w')"
proof (cases n)
  case 0
  then show ?thesis by simp
next
  case (Suc m)
  show ?thesis
  proof (cases "open_append w (log_file a) (ctime e (clock w) @ '': Error processing '' @ p @ '': '' @ str_exn x @ [LF])")
    case (Inl y)
    with Suc show ?thesis by simp
  next
    case (Inr w1)
    with Suc show ?thesis by (cases m) simp_all
  qed
qed

lemma process_image_fuel:
  "process_image a e p w =
     run_image (Suc (Suc (Suc (Suc (Suc (Suc (Suc (Suc 0)))))))) a e p LogStart w"
  by (simp add: process_image_def eval_nat_numeral del: run_image.simps)







lemma run_LogStart_denied:
  "denied w (log_file a) \<Longrightarrow>
     run_image (Suc n) a e p LogStart w =
       run_image n a e p (Handler (OSError (''[Errno 13] Permission denied: '' @ log_file a))) w"
  by (simp add: open_append_def Let_def)

lemma success_files:
  assumes run: "process_image a e p w = (Done (Returned True), w')"
  shows "\<exists>mr s. content_text mr = Inr (JStr s) \<and>
     files w' =
       (files (appended w (log_file a) (start_line a e p w)))
         (response_file_of (output_file_of a p (clock w div ticks_per_second)) \<mapsto> json_dump_indent e mr,
          output_file_of a p (clock w div ticks_per_second) \<mapsto> s)"
proof -
  note run0 = run [unfolded process_image_fuel]
  have d: "\<not> denied w (log_file a)"
  proof
    assume "denied w (log_file a)"
    from run0 [unfolded run_LogStart_denied [OF this]] run_Handler_not_True show False by metis
  qed
  let ?w1 = "appended w (log_file a) (start_line a e p w)"
  let ?out = "output_file_of a p (clock ?w1 div ticks_per_second)"
  let ?resp = "response_file_of ?out"
  note run1 = run0 [unfolded run_LogStart [OF d]]
  obtain data where rd: "open_read ?w1 p = Inr data"
  proof (cases "open_read ?w1 p")
    case (Inl x)
    from run1 [unfolded run_ReadImage_fail [OF Inl]] run_Handler_not_True show ?thesis by metis
  next
    case (Inr data)
    then show ?thesis by (rule that)
  qed
  let ?req = "request_json (image_format_of (mime_type_of e p)) (b64encode e data)"
  let ?w2 = "called ?w1 (profile_arn a) ?req"
  note run2 = run1 [unfolded run_ReadImage_ok [OF rd]]
  obtain body where call: "invoke_model e (length (invocations ?w1)) (profile_arn a) (json_dumps e ?req) = Inr body"
  proof (cases "invoke_model e (length (invocations ?w1)) (profile_arn a) (json_dumps e ?req)")
    case (Inl x)
    from run2 [unfolded run_Invoke_fail [OF Inl]] run_Handler_not_True show ?thesis by metis
  next
    case (Inr body)
    then show ?thesis by (rule that)
  qed
  obtain mr where loads: "json_loads e body = Inr mr"
  proof (cases "json_loads e body")
    case (Inl x)
    from run2 [unfolded run_Invoke_garbled [OF call Inl]] run_Handler_not_True show ?thesis by metis
  next
    case (Inr mr)
    then show ?thesis by (rule that)
  qed
  note run3 = run2 [unfolded run_Invoke_ok [OF call loads]]
  have sink: "\<not> denied ?w2 ?resp"
  proof
    assume "denied ?w2 ?resp"
    then obtain x where "open_write ?w2 ?resp (json_dump_indent e mr) = Inl x"
      using open_write_denied by blast
    from run3 [unfolded run_SaveResponse_fail [OF this]] run_Handler_not_True show False by metis
  qed
  let ?w3 = "written ?w2 ?resp (json_dump_indent e mr)"
  note run4 = run3 [unfolded run_SaveResponse_ok [OF sink]]
  obtain v where shape: "content_text mr = Inr v"
  proof (cases "content_text mr")
    case (Inl x)
    from run4 [unfolded run_SaveText_malformed [OF Inl]] run_Handler_not_True show ?thesis by metis
  next
    case (Inr v)
    then show ?thesis by (rule that)
  qed
  have sink2: "\<not> denied ?w3 ?out"
  proof
    assume "denied ?w3 ?out"
    then obtain x where "open_write ?w3 ?out [] = Inl x"
      using open_write_denied by blast
    from run4 [unfolded run_SaveText_denied [OF shape this]] run_Handler_not_True show False by metis
  qed
  obtain s0 where s0: "v = JStr s0"
  proof (cases "\<exists>s. v = JStr s")
    case True
    then show ?thesis using that by blast
  next
    case False
    then have "\<forall>s. v \<noteq> JStr s" by simp
    from run4 [unfolded run_SaveText_not_str [OF shape sink2 this]] run_Handler_not_True
    show ?thesis by metis
  qed
  from shape s0 have shape': "content_text mr = Inr (JStr s0)" by simp
  from run4 [unfolded run_SaveText_ok [OF shape' sink2]]
  have "w' = print (''Response saved to: '' @ ?out) (written ?w3 ?out s0)" by simp
  then have "files w' = (files ?w1)(?resp \<mapsto> json_dump_indent e mr, ?out \<mapsto> s0)"
    by simp
  with shape' show ?thesis by auto
qed

lemma success_run:
  assumes d: "\<not> denied w (log_file a)" and ne: "p \<noteq> log_file a"
    and rd: "open_read w p = Inr data"
    and call: "invoke_model e (length (invocations w)) (profile_arn a)
        (json_dumps e (request_json (image_format_of (mime_type_of e p)) (b64encode e data))) = Inr body"
    and loads: "json_loads e body = Inr mr"
    and shape: "content_text mr = Inr (JStr s)"
    and sink: "\<not> denied w (response_file_of (output_file_of a p (clock w div ticks_per_second)))"
    and sink2: "\<not> denied w (output_file_of a p (clock w div ticks_per_second))"
  shows "process_image a e p w =
     (Done (Returned True),
      print (''Response saved to: '' @ output_file_of a p (clock w div ticks_per_second))
        (written
           (written
              (called (appended w (log_file a) (start_line a e p w)) (profile_arn a)
                 (request_json (image_format_of (mime_type_of e p)) (b64encode e data)))
              (response_file_of (output_file_of a p (clock w div ticks_per_second)))
              (json_dump_indent e mr))
           (output_file_of a p (clock w div ticks_per_second)) s))"
proof -
  let ?w1 = "appended w (log_file a) (start_line a e p w)"
  let ?req = "request_json (image_format_of (mime_type_of e p)) (b64encode e data)"
  let ?out = "output_file_of a p (clock ?w1 div ticks_per_second)"
  let ?w2 = "called ?w1 (profile_arn a) ?req"
  let ?w3 = "written ?w2 (response_file_of ?out) (json_dump_indent e mr)"
  have rd1: "open_read ?w1 p = Inr data" using ne rd by (simp add: open_read_appended)
  have call1: "invoke_model e (length (invocations ?w1)) (profile_arn a) (json_dumps e ?req) = Inr body"
    using call by simp
  have s2: "\<not> denied ?w2 (response_file_of ?out)" using sink by simp
  have s3: "\<not> denied ?w3 ?out" using sink2 by simp
  show ?thesis
    unfolding process_image_fuel run_LogStart [OF d] run_ReadImage_ok [OF rd1]
      run_Invoke_ok [OF call1 loads] run_SaveResponse_ok [OF s2] run_SaveText_ok [OF shape s3]
    by simp
qed


lemma tick_simps [simp]:
  "files (tick d w) = files w" "invocations (tick d w) = invocations w"
  "clock (tick d w) = clock w + d" "stdout (tick d w) = stdout w"
  by (simp_all add: tick_def)

lemma open_read_tick [simp]: "open_read (tick d w) q = open_read w q"
  by (simp add: open_read_def)

section \<open>The names of the artifacts\<close>

lemma digit_char_0: "digit_char 0 = CHR ''0''"
  by code_simp

lemma str_nat_0: "str_nat 0 = ''0''"
  by (subst str_nat.simps) (simp add: digit_char_0)

lemma demo_output_file: "output_file_of demo_args ''a.png'' 0 = ''out/a.png_0.txt''"
  by (simp add: output_file_of_def path_join_def basename_def str_nat_0 demo_args_def)

lemma echo_shape: "content_text (echo_response b) = Inr (JStr b)"
  by (simp add: content_text_def echo_response_def and_then_def)

lemma demo_second_0: "clock demo_world div ticks_per_second = 0"
  by (simp add: demo_world_def)

lemma first_attempt:
  "process_image demo_args echo_env ''a.png'' demo_world =
     (Done (Returned True),
      print (''Response saved to: '' @ output_file_of demo_args ''a.png'' 0)
        (written
           (written
              (called (appended demo_world (log_file demo_args) (start_line demo_args echo_env ''a.png'' demo_world))
                 (profile_arn demo_args)
                 (request_json (image_format_of (mime_type_of echo_env ''a.png'')) (b64encode echo_env ''PNG'')))
              (response_file_of (output_file_of demo_args ''a.png'' 0))
              (json_dump_indent echo_env (echo_response ''first'')))
           (output_file_of demo_args ''a.png'' 0) ''first''))"
proof -
  have "process_image demo_args echo_env ''a.png'' demo_world =
     (Done (Returned True),
      print (''Response saved to: '' @ output_file_of demo_args ''a.png'' (clock demo_world div ticks_per_second))
        (written
           (written
              (called (appended demo_world (log_file demo_args) (start_line demo_args echo_env ''a.png'' demo_world))
                 (profile_arn demo_args)
                 (request_json (image_format_of (mime_type_of echo_env ''a.png'')) (b64encode echo_env ''PNG'')))
              (response_file_of (output_file_of demo_args ''a.png'' (clock demo_world div ticks_per_second)))
              (json_dump_indent echo_env (echo_response ''first'')))
           (output_file_of demo_args ''a.png'' (clock demo_world div ticks_per_second)) ''first''))"
  proof (rule success_run)
    show "\<not> denied demo_world (log_file demo_args)" by (simp add: demo_world_def)
    show "''a.png'' \<noteq> log_file demo_args" by (simp add: demo_args_def)
    show "open_read demo_world ''a.png'' = Inr ''PNG''" by (simp add: open_read_def demo_world_def)
    show "invoke_model echo_env (length (invocations demo_world)) (profile_arn demo_args)
        (json_dumps echo_env (request_json (image_format_of (mime_type_of echo_env ''a.png''))
           (b64encode echo_env ''PNG''))) = Inr ''first''"
      by (simp add: echo_env_def demo_world_def)
    show "json_loads echo_env ''first'' = Inr (echo_response ''first'')" by (simp add: echo_env_def)
    show "content_text (echo_response ''first'') = Inr (JStr ''first'')" by (rule echo_shape)
    show "\<not> denied demo_world (response_file_of (output_file_of demo_args ''a.png''
        (clock demo_world div ticks_per_second)))" by (simp add: demo_world_def)
    show "\<not> denied demo_world (output_file_of demo_args ''a.png''
        (clock demo_world div ticks_per_second))" by (simp add: demo_world_def)
  qed
  then show ?thesis unfolding demo_second_0 .
qed

lemma success_artifacts:
  assumes "process_image a e p w = (Done (Returned True), w')"
  shows "\<exists>mr s. content_text mr = Inr (JStr s) \<and>
       files w' (output_file_of a p (clock w div ticks_per_second)) = Some s \<and>
       files w' (response_file_of (output_file_of a p (clock w div ticks_per_second))) =
         Some (json_dump_indent e mr) \<and>
       (\<forall>q. q \<noteq> output_file_of a p (clock w div ticks_per_second) \<and>
            q \<noteq> response_file_of (output_file_of a p (clock w div ticks_per_second)) \<and>
            q \<noteq> log_file a \<longrightarrow> files w' q = files w q)"
proof -
  let ?out = "output_file_of a p (clock w div ticks_per_second)"
  from success_files [OF assms] obtain mr s where
    shape: "content_text mr = Inr (JStr s)" and
    f: "files w' = (files (appended w (log_file a) (start_line a e p w)))
         (response_file_of ?out \<mapsto> json_dump_indent e mr, ?out \<mapsto> s)"
    by blast
  have ne: "response_file_of ?out \<noteq> ?out"
    using output_not_response [of a p "clock w div ticks_per_second" ?out] by simp
  have "files w' ?out = Some s" unfolding f by simp
  moreover have "files w' (response_file_of ?out) = Some (json_dump_indent e mr)"
    unfolding f using ne by simp
  moreover have "files w' q = files w q"
    if "q \<noteq> ?out \<and> q \<noteq> response_file_of ?out \<and> q \<noteq> log_file a" for q
    unfolding f using that by (simp add: appended_files(2))
  ultimately show ?thesis using shape by blast
qed

text \<open>
  A counterexample to C7 as stated: two attempts on the same item half a second apart get
  the same timestamp, so the same file names, and the text artifact of the first attempt
  is overwritten by the second.
\<close>

theorem same_second_overwrites:
  "clock (tick 500000 (snd (process_image demo_args echo_env ''a.png'' demo_world))) div ticks_per_second =
     clock demo_world div ticks_per_second \<and>
   files (snd (process_image demo_args echo_env ''a.png'' demo_world))
     (output_file_of demo_args ''a.png'' 0) = Some ''first'' \<and>
   files (snd (process_image demo_args echo_env ''a.png''
       (tick 500000 (snd (process_image demo_args echo_env ''a.png'' demo_world)))))
     (output_file_of demo_args ''a.png'' 0) = Some ''second''"
proof -
  define w1 where "w1 = snd (process_image demo_args echo_env ''a.png'' demo_world)"
  define w2 where "w2 = tick 500000 w1"
  note w1 = w1_def [unfolded first_attempt snd_conv]
  have out: "output_file_of demo_args ''a.png'' 0 = ''out/a.png_0.txt''" by (rule demo_output_file)
  have c1: "clock w1 = 0" unfolding w1 by (simp add: demo_world_def)
  have f1: "files w1 (output_file_of demo_args ''a.png'' 0) = Some ''first''"
    unfolding w1 by simp
  have d1: "denied w1 = denied demo_world" unfolding w1 by simp
  have i1: "length (invocations w1) = 1" unfolding w1 by (simp add: demo_world_def)
  have r1: "files w1 ''a.png'' = Some ''PNG''"
    unfolding w1 out
    by (simp add: response_file_of_def appended_files(2) demo_args_def demo_world_def)
  have sec: "clock w2 div ticks_per_second = 0"
    by (simp add: w2_def c1 ticks_per_second_def)
  have "process_image demo_args echo_env ''a.png'' w2 =
     (Done (Returned True),
      print (''Response saved to: '' @ output_file_of demo_args ''a.png'' (clock w2 div ticks_per_second))
        (written
           (written
              (called (appended w2 (log_file demo_args) (start_line demo_args echo_env ''a.png'' w2))
                 (profile_arn demo_args)
                 (request_json (image_format_of (mime_type_of echo_env ''a.png'')) (b64encode echo_env ''PNG'')))
              (response_file_of (output_file_of demo_args ''a.png'' (clock w2 div ticks_per_second)))
              (json_dump_indent echo_env (echo_response ''second'')))
           (output_file_of demo_args ''a.png'' (clock w2 div ticks_per_second)) ''second''))"
  proof (rule success_run)
    show "\<not> denied w2 (log_file demo_args)" by (simp add: w2_def d1 demo_world_def)
    show "''a.png'' \<noteq> log_file demo_args" by (simp add: demo_args_def)
    show "open_read w2 ''a.png'' = Inr ''PNG''"
      by (simp add: w2_def open_read_def d1 r1 demo_world_def)
    show "invoke_model echo_env (length (invocations w2)) (profile_arn demo_args)
        (json_dumps echo_env (request_json (image_format_of (mime_type_of echo_env ''a.png''))
           (b64encode echo_env ''PNG''))) = Inr ''second''"
      by (simp add: w2_def i1 echo_env_def)
    show "json_loads echo_env ''second'' = Inr (echo_response ''second'')" by (simp add: echo_env_def)
    show "content_text (echo_response ''second'') = Inr (JStr ''second'')" by (rule echo_shape)
    show "\<not> denied w2 (response_file_of (output_file_of demo_args ''a.png''
        (clock w2 div ticks_per_second)))" by (simp add: w2_def d1 demo_world_def)
    show "\<not> denied w2 (output_file_of demo_args ''a.png'' (clock w2 div ticks_per_second))"
      by (simp add: w2_def d1 demo_world_def)
  qed
  then have f2: "files (snd (process_image demo_args echo_env ''a.png'' w2))
      (output_file_of demo_args ''a.png'' 0) = Some ''second''"
    unfolding sec by simp
  have "clock w2 div ticks_per_second = clock demo_world div ticks_per_second"
    unfolding sec demo_second_0 ..
  with f1 f2 show ?thesis unfolding w2_def w1_def by simp
qed

text \<open>
  C7 as amended: a call that returns \<open>True\<close> has written the text of the response and the
  whole response under the two names built from the base name of the path and the clock
  in whole seconds, and has changed no other file but the log; two pairs of path and
  second get the same name for either artifact exactly when they agree in base name and
  second, and a text artifact never has the name of a response artifact.
\<close>

theorem artifact_files:
  "(process_image a e p w = (Done (Returned True), w') \<longrightarrow>
      (\<exists>mr s. content_text mr = Inr (JStr s) \<and>
         files w' (output_file_of a p (clock w div ticks_per_second)) = Some s \<and>
         files w' (response_file_of (output_file_of a p (clock w div ticks_per_second))) =
           Some (json_dump_indent e mr) \<and>
         (\<forall>q. q \<noteq> output_file_of a p (clock w div ticks_per_second) \<and>
              q \<noteq> response_file_of (output_file_of a p (clock w div ticks_per_second)) \<and>
              q \<noteq> log_file a \<longrightarrow> files w' q = files w q))) \<and>
   (output_file_of a p t = output_file_of a p' t' \<longleftrightarrow> basename p = basename p' \<and> t = t') \<and>
   (response_file_of (output_file_of a p t) = response_file_of (output_file_of a p' t') \<longleftrightarrow>
      basename p = basename p' \<and> t = t') \<and>
   output_file_of a p t \<noteq> response_file_of (output_file_of a p' t')"
  using success_artifacts [of a e p w w'] output_file_of_inj [of a p t p' t']
    output_not_response [of a p t "output_file_of a p' t'"]
  by (simp only: response_file_of_inj) blast

theorem artifact_files_witness:
  "process_image demo_args echo_env ''a.png'' demo_world =
     (Done (Returned True), snd (process_image demo_args echo_env ''a.png'' demo_world)) \<and>
   (\<exists>mr s. content_text mr = Inr (JStr s) \<and>
      files (snd (process_image demo_args echo_env ''a.png'' demo_world))
        (output_file_of demo_args ''a.png'' (clock demo_world div ticks_per_second)) = Some s \<and>
      files (snd (process_image demo_args echo_env ''a.png'' demo_world))
        (response_file_of (output_file_of demo_args ''a.png'' (clock demo_world div ticks_per_second))) =
        Some (json_dump_indent echo_env mr) \<and>
      (\<forall>q. q \<noteq> output_file_of demo_args ''a.png'' (clock demo_world div ticks_per_second) \<and>
           q \<noteq> response_file_of (output_file_of demo_args ''a.png'' (clock demo_world div ticks_per_second)) \<and>
           q \<noteq> log_file demo_args \<longrightarrow>
           files (snd (process_image demo_args echo_env ''a.png'' demo_world)) q = files demo_world q))"
proof -
  have h: "process_image demo_args echo_env ''a.png'' demo_world =
     (Done (Returned True), snd (process_image demo_args echo_env ''a.png'' demo_world))"
    by (simp add: first_attempt)
  from artifact_files [of demo_args echo_env "''a.png''" demo_world
      "snd (process_image demo_args echo_env ''a.png'' demo_world)"] h
  show ?thesis by blast
qed

section \<open>Failures stay inside the call\<close>









section \<open>The declared image format\<close>

lemmas demo_defs = demo_args_def demo_env_def demo_world_def good_response_def
lemmas run_defs = process_image_def eval_nat_numeral mime_type_of_def open_append_def
  open_read_def open_write_def Let_def content_text_def and_then_def print_def

lemma demo_process_image_calls:
  "invocations (snd (process_image demo_args demo_env ''a.png'' demo_world)) \<noteq> []"
  by (simp add: run_defs demo_defs)

text \<open>
  C10: every call that \<^verbatim>\<open>process_image\<close> makes to the endpoint declares the format
  \<open>png\<close> if the MIME type guessed for the path contains \<open>png\<close>, and \<open>jpeg\<close> in every
  other case; a path whose type is not known gets \<open>application/octet-stream\<close>, which does
  not contain \<open>png\<close>. The call is made at most once.
\<close>

theorem declared_image_format:
  "process_image a e p w = (s, w') \<Longrightarrow>
     (invocations w' = invocations w \<or>
      (\<exists>req. invocations w' = invocations w @ [(profile_arn a, req)] \<and>
         declared_format req =
           Inr (JStr (if \<exists>u v. mime_type_of e p = u @ ''png'' @ v then ''png'' else ''jpeg'')))) \<and>
     (guess_type e p = None \<longrightarrow>
        mime_type_of e p = ''application/octet-stream'' \<and>
        \<not> (\<exists>u v. mime_type_of e p = u @ ''png'' @ v))"
proof (rule conjI)
  assume run: "process_image a e p w = (s, w')"
  let ?F = "image_format_of (mime_type_of e p)"
  have "stage_inv a e p LogStart" by simp
  from run_image_invocations [OF this, of "steps_left LogStart" w] run
  have "invocations w' = invocations w \<or>
      (\<exists>b. invocations w' = invocations w @ [(profile_arn a, request_json ?F b)])"
    by (simp only: process_image_def snd_conv)
  then show "invocations w' = invocations w \<or>
      (\<exists>req. invocations w' = invocations w @ [(profile_arn a, req)] \<and>
         declared_format req =
           Inr (JStr (if \<exists>u v. mime_type_of e p = u @ ''png'' @ v then ''png'' else ''jpeg'')))"
  proof (elim disjE exE)
    assume "invocations w' = invocations w"
    then show ?thesis by (rule disjI1)
  next
    fix b
    assume "invocations w' = invocations w @ [(profile_arn a, request_json ?F b)]"
    moreover have "declared_format (request_json ?F b) =
        Inr (JStr (if \<exists>u v. mime_type_of e p = u @ ''png'' @ v then ''png'' else ''jpeg''))"
      unfolding image_format_of_iff [symmetric] by (rule declared_format_request)
    ultimately show ?thesis by blast
  qed
next
  show "guess_type e p = None \<longrightarrow>
        mime_type_of e p = ''application/octet-stream'' \<and>
        \<not> (\<exists>u v. mime_type_of e p = u @ ''png'' @ v)"
  proof (intro impI conjI)
    assume g: "guess_type e p = None"
    then show d: "mime_type_of e p = ''application/octet-stream''"
      by (simp add: mime_type_of_def)
    show "\<not> (\<exists>u v. mime_type_of e p = u @ ''png'' @ v)"
      unfolding d contains_iff [symmetric] by (rule no_png_in_default)
  qed
qed

theorem declared_image_format_witness:
  "\<exists>req. invocations (snd (process_image demo_args demo_env ''a.png'' demo_world)) = [(''arn'', req)] \<and>
     declared_format req = Inr (JStr ''png'')"
proof -
  let ?r = "process_image demo_args demo_env ''a.png'' demo_world"
  have h: "?r = (fst ?r, snd ?r)" by simp
  have m: "mime_type_of demo_env ''a.png'' = ''image/png''"
    by (simp add: mime_type_of_def demo_env_def)
  have "contains ''png'' ''image/png''" by simp
  then have c: "\<exists>u v. ''image/png'' = u @ ''png'' @ v" unfolding contains_iff .
  have i: "invocations demo_world = []" and p: "profile_arn demo_args = ''arn''"
    by (simp_all add: demo_world_def demo_args_def)
  from declared_image_format [OF h]
  have "invocations (snd ?r) = invocations demo_world \<or>
      (\<exists>req. invocations (snd ?r) = invocations demo_world @ [(profile_arn demo_args, req)] \<and>
         declared_format req =
           Inr (JStr (if \<exists>u v. mime_type_of demo_env ''a.png'' = u @ ''png'' @ v then ''png'' else ''jpeg'')))"
    by (rule conjunct1)
  then have "invocations (snd ?r) = [] \<or>
      (\<exists>req. invocations (snd ?r) = [(''arn'', req)] \<and> declared_format req = Inr (JStr ''png''))"
    unfolding m i p if_P [OF c] append_Nil .
  with demo_process_image_calls show ?thesis by blast
qed

end
